theory Spec2Isabelle
  imports Main "HOL-Library.Word" "HOL-Library.AList"
begin

unbundle bit_operations_syntax

section \<open>JavaScript values used by the CASC client\<close>

text \<open>
  A JavaScript string is a sequence of code units, here a \<open>string\<close>.
  \<open>s.substring(a, b)\<close> with \<open>0 \<le> a \<le> b\<close> clamps both indices to the length
  of \<open>s\<close>, which \<open>take\<close> and \<open>drop\<close> do as well.
\<close>

definition substring :: "string \<Rightarrow> nat \<Rightarrow> nat \<Rightarrow> string" where
  "substring s a b = take (b - a) (drop a s)"

text \<open>
  The values a thrown error carries, and the errors the methods throw. The source throws
  plain \<open>Error\<close> objects, told apart by their messages.
\<close>

datatype jsval = Num int | Str string

datatype error =
    Error string              \<comment> \<open>\<open>throw new Error(message)\<close>\<close>
  | ErrorWith string jsval    \<comment> \<open>\<open>throw new Error(message + value)\<close>\<close>
  | TypeError                 \<comment> \<open>a property read or a call on \<open>undefined\<close>\<close>
  | OutOfBounds               \<comment> \<open>a buffer read, move or seek outside the buffer\<close>
  | ErrorFormat string "jsval list"
      \<comment> \<open>\<open>throw new Error(util.format(message, values))\<close>\<close>
  | BLTEError                 \<comment> \<open>the BLTE container could not be decoded\<close>
  | IOError                   \<comment> \<open>a file could not be read or written\<close>
  | NetworkError              \<comment> \<open>a request was rejected\<close>

section \<open>The buffer reader\<close>

type_synonym byte = "8 word"

record buffer =
  data :: "byte list"
  offset :: nat

text \<open>
  Modelled from the spec: the buffer wrapper (\<open>../buffer\<close>) and the BLTE reader built on
  it are not among the sources. The reads below follow the field types the spec gives for
  the root and encoding layouts: \<open>u8\<close>, \<open>u16\<close> and \<open>u32\<close> little-endian unsigned
  (\<open>readUInt8\<close>, \<open>readUInt16\<close>, \<open>readUInt32\<close>), signed 32-bit little-endian deltas
  (\<open>readInt32\<close>), \<open>u16BE\<close> for the page size (\<open>readInt16BE\<close> at the call site),
  \<open>i32BE\<close> (\<open>readInt32BE\<close>) and a 40-bit big-endian unsigned size (\<open>readInt40BE\<close> at
  the call site). A read, a move or a seek that leaves the buffer fails.
\<close>

definition remainingBytes :: "buffer \<Rightarrow> nat" where
  "remainingBytes b = length (data b) - offset b"

definition readBytes :: "nat \<Rightarrow> buffer \<Rightarrow> error + (byte list \<times> buffer)" where
  "readBytes n b =
     (if offset b + n \<le> length (data b)
      then Inr (take n (drop (offset b) (data b)), b\<lparr>offset := offset b + n\<rparr>)
      else Inl OutOfBounds)"

fun le_nat :: "byte list \<Rightarrow> nat" where
  "le_nat [] = 0"
| "le_nat (x # xs) = unat x + 256 * le_nat xs"

definition be_nat :: "byte list \<Rightarrow> nat" where
  "be_nat xs = le_nat (rev xs)"

definition signed_of :: "nat \<Rightarrow> nat \<Rightarrow> int" where
  \<comment> \<open>two's complement reading of an unsigned value of the given number of bits\<close>
  "signed_of bits v = (if v < 2 ^ (bits - 1) then int v else int v - 2 ^ bits)"

definition readWith :: "nat \<Rightarrow> (byte list \<Rightarrow> 'a) \<Rightarrow> buffer \<Rightarrow> error + ('a \<times> buffer)" where
  "readWith n f b = (case readBytes n b of Inl e \<Rightarrow> Inl e | Inr (bs, b') \<Rightarrow> Inr (f bs, b'))"

definition readUInt8 :: "buffer \<Rightarrow> error + (nat \<times> buffer)" where
  "readUInt8 = readWith 1 le_nat"

definition readUInt16 :: "buffer \<Rightarrow> error + (nat \<times> buffer)" where
  "readUInt16 = readWith 2 le_nat"

definition readUInt32 :: "buffer \<Rightarrow> error + (nat \<times> buffer)" where
  "readUInt32 = readWith 4 le_nat"

definition readInt32 :: "buffer \<Rightarrow> error + (int \<times> buffer)" where
  "readInt32 = readWith 4 (\<lambda>bs. signed_of 32 (le_nat bs))"

definition readInt16BE :: "buffer \<Rightarrow> error + (nat \<times> buffer)" where
  "readInt16BE = readWith 2 be_nat"

definition readInt32BE :: "buffer \<Rightarrow> error + (int \<times> buffer)" where
  "readInt32BE = readWith 4 (\<lambda>bs. signed_of 32 (be_nat bs))"

definition readInt40BE :: "buffer \<Rightarrow> error + (nat \<times> buffer)" where
  "readInt40BE = readWith 5 be_nat"

definition hex_digit :: "nat \<Rightarrow> char" where
  "hex_digit n = ''0123456789abcdef'' ! n"

definition hex_byte :: "byte \<Rightarrow> string" where
  "hex_byte x = [hex_digit (unat x div 16), hex_digit (unat x mod 16)]"

definition hex_of :: "byte list \<Rightarrow> string" where
  "hex_of bs = concat (map hex_byte bs)"

definition readHexString :: "nat \<Rightarrow> buffer \<Rightarrow> error + (string \<times> buffer)" where
  "readHexString n = readWith n hex_of"

definition move :: "int \<Rightarrow> buffer \<Rightarrow> error + buffer" where
  "move n b =
     (let pos = int (offset b) + n
      in if pos < 0 \<or> int (length (data b)) < pos then Inl OutOfBounds
         else Inr (b\<lparr>offset := nat pos\<rparr>))"

definition seek :: "nat \<Rightarrow> buffer \<Rightarrow> error + buffer" where
  "seek pos b = (if length (data b) < pos then Inl OutOfBounds else Inr (b\<lparr>offset := pos\<rparr>))"

text \<open>
  \<open>new BLTEReader(data, hash)\<close>: the decoder is a parameter \<open>blte\<close> of the parsers, which
  gives the decoded bytes of a container or fails; the reader starts at offset 0.
\<close>

type_synonym blte_decoder = "byte list \<Rightarrow> string \<Rightarrow> error + byte list"

definition BLTEReader :: "blte_decoder \<Rightarrow> byte list \<Rightarrow> string \<Rightarrow> error + buffer" where
  "BLTEReader blte raw hash =
     (case blte raw hash of Inl e \<Rightarrow> Inl e | Inr bs \<Rightarrow> Inr \<lparr>data = bs, offset = 0\<rparr>)"

section \<open>CASC\<close>

text \<open>
  The flag tables \<open>ContentFlags\<close> (\<open>./content-flags\<close>) are not among the sources; the two
  bits the client tests are parameters.
\<close>

record content_flags =
  LowViolence :: "32 word"
  NoNameHash :: "32 word"

record rootType =
  contentFlags :: "32 word"
  localeFlags :: "32 word"

text \<open>
  An object parsed from a configuration document has string properties; a property it
  lacks reads as \<open>undefined\<close>, here \<open>None\<close>.
\<close>

type_synonym config_entry = "(string \<times> string) list"

text \<open>
  A \<open>Map\<close> keeps its keys in insertion order and holds each key once: an association
  list, read with \<^const>\<open>map_of\<close> and written with \<^const>\<open>AList.update\<close>, which
  replaces the value of a key already present where it stands and appends a new key.
\<close>

text \<open>
  The fields of the class the lookups, the parsers and the loader use. \<open>locale\<close> is the
  active locale mask (\<open>cascLocale\<close> here); the bitwise \<open>&\<close> of JavaScript works on its
  32-bit value. \<open>rootEntries\<close> maps a fileDataID to a map from root type index to content
  key. The three configuration objects are \<open>undefined\<close> until the loader sets them.
\<close>

record casc =
  cascLocale :: "32 word"
  encodingSizes :: "(string \<times> nat) list"
  encodingKeys :: "(string \<times> string) list"
  rootEntries :: "(int \<times> (nat \<times> string) list) list"
  rootTypes :: "rootType list"
  buildConfig :: "config_entry option"
  cdnConfig :: "config_entry option"
  serverConfig :: "config_entry option"

text \<open>
  Every root type index of an entry is below \<open>n\<close>. With \<open>n\<close> the number of root
  types, this is what the root parser keeps: the entries of a parsed table refer to root
  types that exist.
\<close>

definition rootIndicesBelow :: "nat \<Rightarrow> (int \<times> (nat \<times> string) list) list \<Rightarrow> bool" where
  "rootIndicesBelow n entries \<longleftrightarrow>
     (\<forall>(fileDataID, entry) \<in> set entries. \<forall>(rootTypeIdx, key) \<in> set entry. rootTypeIdx < n)"

definition ENC_MAGIC :: nat where
  "ENC_MAGIC = 0x4E45"

definition ROOT_MAGIC :: nat where
  "ROOT_MAGIC = 0x4D465354"

text \<open>
  The test both lookups apply to a root type:
  \<^verbatim>\<open>(rootType.localeFlags & this.locale) && ((rootType.contentFlags & ContentFlags.LowViolence) === 0)\<close>
\<close>

definition matchesLocale :: "content_flags \<Rightarrow> 32 word \<Rightarrow> rootType \<Rightarrow> bool" where
  "matchesLocale cf loc rt \<longleftrightarrow>
     localeFlags rt AND loc \<noteq> 0 \<and> contentFlags rt AND LowViolence cf = 0"

text \<open>
  The inner loop of \<open>getValidRootEntries\<close> over \<open>entry.keys()\<close>, with its \<open>break\<close>.
  \<open>this.rootTypes[rootTypeIdx]\<close> is \<open>undefined\<close> past the end of the array, and reading
  \<open>localeFlags\<close> from it throws.
\<close>

fun includeEntry :: "content_flags \<Rightarrow> 32 word \<Rightarrow> rootType list \<Rightarrow> nat list \<Rightarrow> error + bool" where
  "includeEntry cf loc rts [] = Inr False"
| "includeEntry cf loc rts (rootTypeIdx # rest) =
     (if rootTypeIdx < length rts
      then (if matchesLocale cf loc (rts ! rootTypeIdx) then Inr True
            else includeEntry cf loc rts rest)
      else Inl TypeError)"

fun validEntries ::
  "content_flags \<Rightarrow> 32 word \<Rightarrow> rootType list \<Rightarrow> (int \<times> (nat \<times> string) list) list \<Rightarrow> error + int list"
where
  "validEntries cf loc rts [] = Inr []"
| "validEntries cf loc rts ((fileDataID, entry) # rest) =
     (case includeEntry cf loc rts (map fst entry) of
        Inl e \<Rightarrow> Inl e
      | Inr include \<Rightarrow>
          (case validEntries cf loc rts rest of
             Inl e \<Rightarrow> Inl e
           | Inr entries \<Rightarrow> Inr (if include then fileDataID # entries else entries)))"

definition getValidRootEntries :: "content_flags \<Rightarrow> 'a casc_scheme \<Rightarrow> error + int list" where
  "getValidRootEntries cf c = validEntries cf (cascLocale c) (rootTypes c) (rootEntries c)"

text \<open>
  The loop of \<open>getFile\<close> over \<open>root.entries()\<close>: the first entry whose root type matches
  gives the content key; \<open>None\<close> is the \<open>null\<close> the loop leaves when none matches.
\<close>

fun selectContentKey ::
  "content_flags \<Rightarrow> 32 word \<Rightarrow> rootType list \<Rightarrow> (nat \<times> string) list \<Rightarrow> error + string option"
where
  "selectContentKey cf loc rts [] = Inr None"
| "selectContentKey cf loc rts ((rootTypeIdx, key) # rest) =
     (if rootTypeIdx < length rts
      then (if matchesLocale cf loc (rts ! rootTypeIdx) then Inr (Some key)
            else selectContentKey cf loc rts rest)
      else Inl TypeError)"

text \<open>
  What \<open>getFile\<close> can hand back: the base class returns the encoding key, a string; a
  decoded file is a buffer of bytes.
\<close>

datatype file_result = EncodingKey string | FileData "byte list"

definition getFile :: "content_flags \<Rightarrow> 'a casc_scheme \<Rightarrow> int \<Rightarrow> error + file_result" where
  "getFile cf c fileDataID =
     (case map_of (rootEntries c) fileDataID of
        None \<Rightarrow> Inl (ErrorWith ''fileDataID does not exist in root: '' (Num fileDataID))
      | Some root \<Rightarrow>
          (case selectContentKey cf (cascLocale c) (rootTypes c) root of
             Inl e \<Rightarrow> Inl e
           | Inr None \<Rightarrow>
               Inl (ErrorWith ''No root entry found for locale: '' (Num (uint (cascLocale c))))
           | Inr (Some contentKey) \<Rightarrow>
               (case map_of (encodingKeys c) contentKey of
                  None \<Rightarrow> Inl (ErrorWith ''No encoding entry found: '' (Str contentKey))
                | Some encodingKey \<Rightarrow> Inr (EncodingKey encodingKey))))"

subsection \<open>The root file\<close>

text \<open>
  The first inner loop of a block: \<open>numRecords\<close> signed deltas,
  \<^verbatim>\<open>nextID = fileDataID + root.readInt32(); fileDataIDs[i] = nextID; fileDataID = nextID + 1\<close>.
  The identifiers are JavaScript numbers, modelled as unbounded integers.
\<close>

fun readFileDataIDs :: "nat \<Rightarrow> int \<Rightarrow> buffer \<Rightarrow> error + (int list \<times> buffer)" where
  "readFileDataIDs 0 fileDataID b = Inr ([], b)"
| "readFileDataIDs (Suc n) fileDataID b =
     (case readInt32 b of
        Inl e \<Rightarrow> Inl e
      | Inr (delta, b1) \<Rightarrow>
          (let nextID = fileDataID + delta
           in case readFileDataIDs n (nextID + 1) b1 of
                Inl e \<Rightarrow> Inl e
              | Inr (ids, b2) \<Rightarrow> Inr (nextID # ids, b2)))"

text \<open>
  \<^verbatim>\<open>let entry = rootEntries.get(fileDataID);
  if (!entry) { entry = new Map(); rootEntries.set(fileDataID, entry); }
  entry.set(rootTypes.length, key);\<close>
\<close>

definition setRootEntry ::
  "int \<Rightarrow> nat \<Rightarrow> string \<Rightarrow> (int \<times> (nat \<times> string) list) list \<Rightarrow> (int \<times> (nat \<times> string) list) list"
where
  "setRootEntry fileDataID rootTypeIdx key entries =
     (case map_of entries fileDataID of
        None \<Rightarrow> AList.update fileDataID [(rootTypeIdx, key)] entries
      | Some entry \<Rightarrow> AList.update fileDataID (AList.update rootTypeIdx key entry) entries)"

text \<open>
  The first two lines alone: in the modern layout they run before the key is read, so a
  read that fails leaves the new, empty entry in the table.
\<close>

definition newRootEntry ::
  "int \<Rightarrow> (int \<times> (nat \<times> string) list) list \<Rightarrow> (int \<times> (nat \<times> string) list) list"
where
  "newRootEntry fileDataID entries =
     (case map_of entries fileDataID of
        None \<Rightarrow> AList.update fileDataID [] entries
      | Some entry \<Rightarrow> entries)"

text \<open>
  The content key of a record. The source text of this read is malformed in both layouts
  (\<^verbatim>\<open>root.readString(16), 'hex')\<close>); it is taken as the read of 16 bytes as a hex string,
  the fixed-length content key of the spec.
\<close>

definition readContentKey :: "buffer \<Rightarrow> error + (string \<times> buffer)" where
  "readContentKey = readHexString 16"

text \<open>
  The parsers write the tables of the object in place, so a parse that throws leaves the
  rows written before the failing read: a failure carries the tables as they are then.

  The second inner loop of a block in the modern layout. The entry of the record is
  looked up, or created, before its key is read.
\<close>

fun modernKeys ::
  "nat \<Rightarrow> int list \<Rightarrow> (int \<times> (nat \<times> string) list) list \<Rightarrow> buffer
   \<Rightarrow> (error \<times> (int \<times> (nat \<times> string) list) list) + ((int \<times> (nat \<times> string) list) list \<times> buffer)"
where
  "modernKeys rootTypeIdx [] entries b = Inr (entries, b)"
| "modernKeys rootTypeIdx (fileDataID # ids) entries b =
     (let entries1 = newRootEntry fileDataID entries
      in case readContentKey b of
           Inl e \<Rightarrow> Inl (e, entries1)
         | Inr (key, b1) \<Rightarrow>
             modernKeys rootTypeIdx ids (setRootEntry fileDataID rootTypeIdx key entries1) b1)"

text \<open>
  The second inner loop in the classic layout: a key and an 8-byte hash per record, both
  read before the entry is looked up.
\<close>

fun classicKeys ::
  "nat \<Rightarrow> int list \<Rightarrow> (int \<times> (nat \<times> string) list) list \<Rightarrow> buffer
   \<Rightarrow> (error \<times> (int \<times> (nat \<times> string) list) list) + ((int \<times> (nat \<times> string) list) list \<times> buffer)"
where
  "classicKeys rootTypeIdx [] entries b = Inr (entries, b)"
| "classicKeys rootTypeIdx (fileDataID # ids) entries b =
     (case readContentKey b of
        Inl e \<Rightarrow> Inl (e, entries)
      | Inr (key, b1) \<Rightarrow>
          (case move 8 b1 of
             Inl e \<Rightarrow> Inl (e, entries)
           | Inr b2 \<Rightarrow>
               classicKeys rootTypeIdx ids (setRootEntry fileDataID rootTypeIdx key entries) b2))"

text \<open>
  One pass of the \<open>while\<close> loop of the modern layout. The name hashes are skipped by
  \<^verbatim>\<open>if (!(allowNamelessFiles && contentFlags & ContentFlags.NoNameHash)) root.move(8 * numRecords);\<close>
  and the root type is pushed after the records.
\<close>

definition parseModernBlock ::
  "content_flags \<Rightarrow> bool \<Rightarrow> 'a casc_scheme \<Rightarrow> buffer
   \<Rightarrow> (error \<times> 'a casc_scheme) + ('a casc_scheme \<times> buffer)"
where
  "parseModernBlock cf allowNamelessFiles c b =
     (case readUInt32 b of Inl e \<Rightarrow> Inl (e, c) | Inr (numRecords, b1) \<Rightarrow>
     (case readUInt32 b1 of Inl e \<Rightarrow> Inl (e, c) | Inr (cFlags, b2) \<Rightarrow>
     (case readUInt32 b2 of Inl e \<Rightarrow> Inl (e, c) | Inr (lFlags, b3) \<Rightarrow>
     (case readFileDataIDs numRecords 0 b3 of Inl e \<Rightarrow> Inl (e, c) | Inr (fileDataIDs, b4) \<Rightarrow>
     (case modernKeys (length (rootTypes c)) fileDataIDs (rootEntries c) b4 of
        Inl (e, entries) \<Rightarrow> Inl (e, c\<lparr>rootEntries := entries\<rparr>)
      | Inr (entries, b5) \<Rightarrow>
     (case (if \<not> (allowNamelessFiles \<and> (of_nat cFlags :: 32 word) AND NoNameHash cf \<noteq> 0)
            then move (8 * int numRecords) b5 else Inr b5) of
        Inl e \<Rightarrow> Inl (e, c\<lparr>rootEntries := entries\<rparr>)
      | Inr b6 \<Rightarrow>
          Inr (c\<lparr>rootEntries := entries,
                 rootTypes := rootTypes c @ [\<lparr>contentFlags = of_nat cFlags, localeFlags = of_nat lFlags\<rparr>]\<rparr>,
               b6)))))))"

definition parseClassicBlock ::
  "'a casc_scheme \<Rightarrow> buffer \<Rightarrow> (error \<times> 'a casc_scheme) + ('a casc_scheme \<times> buffer)"
where
  "parseClassicBlock c b =
     (case readUInt32 b of Inl e \<Rightarrow> Inl (e, c) | Inr (numRecords, b1) \<Rightarrow>
     (case readUInt32 b1 of Inl e \<Rightarrow> Inl (e, c) | Inr (cFlags, b2) \<Rightarrow>
     (case readUInt32 b2 of Inl e \<Rightarrow> Inl (e, c) | Inr (lFlags, b3) \<Rightarrow>
     (case readFileDataIDs numRecords 0 b3 of Inl e \<Rightarrow> Inl (e, c) | Inr (fileDataIDs, b4) \<Rightarrow>
     (case classicKeys (length (rootTypes c)) fileDataIDs (rootEntries c) b4 of
        Inl (e, entries) \<Rightarrow> Inl (e, c\<lparr>rootEntries := entries\<rparr>)
      | Inr (entries, b5) \<Rightarrow>
          Inr (c\<lparr>rootEntries := entries,
                 rootTypes := rootTypes c @ [\<lparr>contentFlags = of_nat cFlags, localeFlags = of_nat lFlags\<rparr>]\<rparr>,
               b5))))))"

text \<open>Every read moves the offset forward and leaves the bytes alone.\<close>

lemma readBytes_step:
  "readBytes n b = Inr (bs, b') \<Longrightarrow>
   data b' = data b \<and> offset b' = offset b + n \<and> offset b' \<le> length (data b)"
  by (auto simp: readBytes_def split: if_splits)

lemma readWith_step:
  "readWith n f b = Inr (v, b') \<Longrightarrow>
   data b' = data b \<and> offset b' = offset b + n \<and> offset b' \<le> length (data b)"
  by (auto simp: readWith_def split: sum.splits dest: readBytes_step)

lemma move_step:
  "move n b = Inr b' \<Longrightarrow>
   data b' = data b \<and> int (offset b') = int (offset b) + n \<and> offset b' \<le> length (data b)"
  by (auto simp: move_def Let_def split: if_splits)

lemma readFileDataIDs_step:
  "readFileDataIDs n fid b = Inr (ids, b') \<Longrightarrow>
   data b' = data b \<and> offset b' = offset b + 4 * n \<and> length ids = n \<and>
   (offset b \<le> length (data b) \<longrightarrow> offset b' \<le> length (data b))"
proof (induction n arbitrary: fid b ids)
  case 0
  then show ?case by simp
next
  case (Suc n)
  from Suc.prems obtain d b1 ids' where
    r: "readInt32 b = Inr (d, b1)" and
    rest: "readFileDataIDs n (fid + d + 1) b1 = Inr (ids', b')" and
    ids: "ids = (fid + d) # ids'"
    by (auto simp: Let_def split: sum.splits prod.splits)
  from r have "data b1 = data b \<and> offset b1 = offset b + 4 \<and> offset b1 \<le> length (data b)"
    by (auto simp: readInt32_def dest: readWith_step)
  with Suc.IH [OF rest] ids show ?case by simp
qed

lemma setRootEntry_newRootEntry [simp]:
  "setRootEntry fid idx key (newRootEntry fid entries) = setRootEntry fid idx key entries"
  by (cases "map_of entries fid") (simp_all add: setRootEntry_def newRootEntry_def update_conv')

lemma modernKeys_step:
  "modernKeys idx ids entries b = Inr (entries', b') \<Longrightarrow>
   data b' = data b \<and> offset b' = offset b + 16 * length ids \<and>
   (offset b \<le> length (data b) \<longrightarrow> offset b' \<le> length (data b))"
proof (induction ids arbitrary: entries b)
  case Nil
  then show ?case by simp
next
  case (Cons fid ids)
  from Cons.prems obtain key b1 where
    r: "readContentKey b = Inr (key, b1)" and
    rest: "modernKeys idx ids (setRootEntry fid idx key entries) b1 = Inr (entries', b')"
    by (auto simp: Let_def split: sum.splits prod.splits)
  from r have "data b1 = data b \<and> offset b1 = offset b + 16 \<and> offset b1 \<le> length (data b)"
    by (auto simp: readContentKey_def readHexString_def dest: readWith_step)
  with Cons.IH [OF rest] show ?case by simp
qed

lemma classicKeys_step:
  "classicKeys idx ids entries b = Inr (entries', b') \<Longrightarrow>
   data b' = data b \<and> offset b' = offset b + 24 * length ids \<and>
   (offset b \<le> length (data b) \<longrightarrow> offset b' \<le> length (data b))"
proof (induction ids arbitrary: entries b)
  case Nil
  then show ?case by simp
next
  case (Cons fid ids)
  from Cons.prems obtain key b1 b2 where
    r: "readContentKey b = Inr (key, b1)" and
    m: "move 8 b1 = Inr b2" and
    rest: "classicKeys idx ids (setRootEntry fid idx key entries) b2 = Inr (entries', b')"
    by (auto split: sum.splits prod.splits)
  from r have "data b1 = data b \<and> offset b1 = offset b + 16 \<and> offset b1 \<le> length (data b)"
    by (auto simp: readContentKey_def readHexString_def dest: readWith_step)
  moreover from m have "data b2 = data b1 \<and> offset b2 = offset b1 + 8 \<and> offset b2 \<le> length (data b1)"
    by (auto dest: move_step)
  ultimately show ?case using Cons.IH [OF rest] by simp
qed

lemma readUInt32_step:
  "readUInt32 b = Inr (v, b') \<Longrightarrow>
   data b' = data b \<and> offset b' = offset b + 4 \<and> offset b' \<le> length (data b)"
  by (auto simp: readUInt32_def dest: readWith_step)

lemma parseModernBlock_offset:
  assumes "parseModernBlock cf allowNamelessFiles c b = Inr (c', b')"
  shows "\<exists>n cFlags b1 b2. readUInt32 b = Inr (n, b1) \<and> readUInt32 b1 = Inr (cFlags, b2) \<and>
           data b' = data b \<and> offset b' \<le> length (data b) \<and>
           offset b' = offset b + 12 + 20 * n +
             (if allowNamelessFiles \<and> (of_nat cFlags :: 32 word) AND NoNameHash cf \<noteq> 0
              then 0 else 8 * n)"
proof -
  from assms obtain n cFlags lFlags ids entries b1 b2 b3 b4 b5 where
    r1: "readUInt32 b = Inr (n, b1)" and
    r2: "readUInt32 b1 = Inr (cFlags, b2)" and
    r3: "readUInt32 b2 = Inr (lFlags, b3)" and
    r4: "readFileDataIDs n 0 b3 = Inr (ids, b4)" and
    r5: "modernKeys (length (rootTypes c)) ids (rootEntries c) b4 = Inr (entries, b5)" and
    r6: "(if \<not> (allowNamelessFiles \<and> (of_nat cFlags :: 32 word) AND NoNameHash cf \<noteq> 0)
          then move (8 * int n) b5 else Inr b5) = Inr b'"
    unfolding parseModernBlock_def by (auto split: sum.splits prod.splits)
  note s1 = readUInt32_step [OF r1] and s2 = readUInt32_step [OF r2]
    and s3 = readUInt32_step [OF r3] and s4 = readFileDataIDs_step [OF r4]
    and s5 = modernKeys_step [OF r5]
  have d5: "data b5 = data b" and o5: "offset b5 = offset b + 12 + 20 * n"
    and l5: "offset b5 \<le> length (data b)"
    using s1 s2 s3 s4 s5 by simp_all
  have "data b' = data b \<and> offset b' \<le> length (data b) \<and>
        offset b' = offset b + 12 + 20 * n +
          (if allowNamelessFiles \<and> (of_nat cFlags :: 32 word) AND NoNameHash cf \<noteq> 0
           then 0 else 8 * n)"
  proof (cases "allowNamelessFiles \<and> (of_nat cFlags :: 32 word) AND NoNameHash cf \<noteq> 0")
    case True
    with r6 have "b' = b5" by simp
    with True d5 o5 l5 show ?thesis by simp
  next
    case False
    with r6 have "move (8 * int n) b5 = Inr b'" by auto
    from move_step [OF this] False d5 o5 show ?thesis by auto
  qed
  with r1 r2 show ?thesis by blast
qed

lemma parseClassicBlock_offset:
  assumes "parseClassicBlock c b = Inr (c', b')"
  shows "\<exists>n b1. readUInt32 b = Inr (n, b1) \<and>
           data b' = data b \<and> offset b' \<le> length (data b) \<and>
           offset b' = offset b + 12 + 28 * n"
proof -
  from assms obtain n cFlags lFlags ids entries b1 b2 b3 b4 where
    r1: "readUInt32 b = Inr (n, b1)" and
    r2: "readUInt32 b1 = Inr (cFlags, b2)" and
    r3: "readUInt32 b2 = Inr (lFlags, b3)" and
    r4: "readFileDataIDs n 0 b3 = Inr (ids, b4)" and
    r5: "classicKeys (length (rootTypes c)) ids (rootEntries c) b4 = Inr (entries, b')"
    unfolding parseClassicBlock_def by (auto split: sum.splits prod.splits)
  note s1 = readUInt32_step [OF r1] and s2 = readUInt32_step [OF r2]
    and s3 = readUInt32_step [OF r3] and s4 = readFileDataIDs_step [OF r4]
    and s5 = classicKeys_step [OF r5]
  have "data b' = data b \<and> offset b' \<le> length (data b) \<and> offset b' = offset b + 12 + 28 * n"
    using s1 s2 s3 s4 s5 by simp
  with r1 show ?thesis by blast
qed

text \<open>
  The loops \<open>while (root.remainingBytes > 0)\<close> of the two layouts. A block that parses
  consumes at least its 12-byte header, so the loops end.
\<close>

function parseModernBlocks ::
  "content_flags \<Rightarrow> bool \<Rightarrow> 'a casc_scheme \<Rightarrow> buffer \<Rightarrow> (error \<times> 'a casc_scheme) + 'a casc_scheme"
where
  "parseModernBlocks cf allowNamelessFiles c b =
     (if remainingBytes b > 0
      then (case parseModernBlock cf allowNamelessFiles c b of
              Inl failed \<Rightarrow> Inl failed
            | Inr (c', b') \<Rightarrow> parseModernBlocks cf allowNamelessFiles c' b')
      else Inr c)"
  by pat_completeness auto
termination
proof (relation "measure (\<lambda>(cf, a, c, b). remainingBytes b)")
  show "wf (measure (\<lambda>(cf, a, c, b). remainingBytes b))" by simp
next
  fix cf :: content_flags and allowNamelessFiles :: bool and c :: "'a casc_scheme"
    and b :: buffer and x :: "'a casc_scheme \<times> buffer" and c' :: "'a casc_scheme" and b' :: buffer
  assume pos: "0 < remainingBytes b"
    and ok: "parseModernBlock cf allowNamelessFiles c b = Inr x" and x: "(c', b') = x"
  from ok x have "parseModernBlock cf allowNamelessFiles c b = Inr (c', b')" by simp
  from parseModernBlock_offset [OF this]
  have "data b' = data b \<and> offset b' \<le> length (data b) \<and> offset b + 12 \<le> offset b'"
    by auto
  then show "((cf, allowNamelessFiles, c', b'), (cf, allowNamelessFiles, c, b))
               \<in> measure (\<lambda>(cf, a, c, b). remainingBytes b)"
    by (auto simp: remainingBytes_def)
qed

declare parseModernBlocks.simps [simp del]

function parseClassicBlocks ::
  "'a casc_scheme \<Rightarrow> buffer \<Rightarrow> (error \<times> 'a casc_scheme) + 'a casc_scheme"
where
  "parseClassicBlocks c b =
     (if remainingBytes b > 0
      then (case parseClassicBlock c b of
              Inl failed \<Rightarrow> Inl failed
            | Inr (c', b') \<Rightarrow> parseClassicBlocks c' b')
      else Inr c)"
  by pat_completeness auto
termination
proof (relation "measure (\<lambda>(c, b). remainingBytes b)")
  show "wf (measure (\<lambda>(c, b). remainingBytes b))" by simp
next
  fix c :: "'a casc_scheme" and b :: buffer and x :: "'a casc_scheme \<times> buffer"
    and c' :: "'a casc_scheme" and b' :: buffer
  assume pos: "0 < remainingBytes b"
    and ok: "parseClassicBlock c b = Inr x" and x: "(c', b') = x"
  from ok x have "parseClassicBlock c b = Inr (c', b')" by simp
  from parseClassicBlock_offset [OF this]
  have "data b' = data b \<and> offset b' \<le> length (data b) \<and> offset b + 12 \<le> offset b'"
    by auto
  then show "((c', b'), (c, b)) \<in> measure (\<lambda>(c, b). remainingBytes b)"
    by (auto simp: remainingBytes_def)
qed

declare parseClassicBlocks.simps [simp del]

text \<open>
  \<open>parseRootFile(data, hash)\<close>: the layout is chosen by the leading magic; the result is
  \<open>rootEntries.size\<close>, returned with the updated tables.
\<close>

definition parseRootFile ::
  "blte_decoder \<Rightarrow> content_flags \<Rightarrow> 'a casc_scheme \<Rightarrow> byte list \<Rightarrow> string
   \<Rightarrow> (error \<times> 'a casc_scheme) + (nat \<times> 'a casc_scheme)"
where
  "parseRootFile blte cf c raw hash =
     (case BLTEReader blte raw hash of Inl e \<Rightarrow> Inl (e, c) | Inr root \<Rightarrow>
     (case readUInt32 root of Inl e \<Rightarrow> Inl (e, c) | Inr (magic, r1) \<Rightarrow>
      if magic = ROOT_MAGIC
      then (case readUInt32 r1 of Inl e \<Rightarrow> Inl (e, c) | Inr (totalFileCount, r2) \<Rightarrow>
           (case readUInt32 r2 of Inl e \<Rightarrow> Inl (e, c) | Inr (namedFileCount, r3) \<Rightarrow>
           (case parseModernBlocks cf (totalFileCount \<noteq> namedFileCount) c r3 of
              Inl failed \<Rightarrow> Inl failed
            | Inr c' \<Rightarrow> Inr (length (rootEntries c'), c'))))
      else (case seek 0 r1 of Inl e \<Rightarrow> Inl (e, c) | Inr r0 \<Rightarrow>
           (case parseClassicBlocks c r0 of
              Inl failed \<Rightarrow> Inl failed
            | Inr c' \<Rightarrow> Inr (length (rootEntries c'), c')))))"

subsection \<open>The encoding file\<close>

text \<open>
  One pass of the inner \<open>while\<close> loop of \<open>parseEncodingFile\<close>: \<open>None\<close> is the
  \<open>break\<close> on a key count of 0, otherwise the tables with the row of the entry, the
  other encoding keys skipped. The size is written once the content key is read, the
  encoding key once it is read itself, and a failure carries the tables as they are then:
  \<^verbatim>\<open>encodingSizes.set(cKey, size);
  encodingKeys.set(cKey, encoding.readHexString(hashSizeEKey));
  encoding.move(hashSizeEKey * (keysCount - 1));\<close>
\<close>

definition parseEncodingEntry ::
  "nat \<Rightarrow> nat \<Rightarrow> 'a casc_scheme \<Rightarrow> buffer
   \<Rightarrow> (error \<times> 'a casc_scheme) + ('a casc_scheme option \<times> buffer)"
where
  "parseEncodingEntry hashSizeCKey hashSizeEKey c b =
     (case readUInt8 b of Inl e \<Rightarrow> Inl (e, c) | Inr (keysCount, b1) \<Rightarrow>
      if keysCount = 0 then Inr (None, b1)
      else
       (case readInt40BE b1 of Inl e \<Rightarrow> Inl (e, c) | Inr (sz, b2) \<Rightarrow>
       (case readHexString hashSizeCKey b2 of Inl e \<Rightarrow> Inl (e, c) | Inr (cKey, b3) \<Rightarrow>
       (case readHexString hashSizeEKey b3 of
          Inl e \<Rightarrow> Inl (e, c\<lparr>encodingSizes := AList.update cKey sz (encodingSizes c)\<rparr>)
        | Inr (eKey, b4) \<Rightarrow>
       (case move (int hashSizeEKey * (int keysCount - 1)) b4 of
          Inl e \<Rightarrow>
            Inl (e, c\<lparr>encodingSizes := AList.update cKey sz (encodingSizes c),
                      encodingKeys := AList.update cKey eKey (encodingKeys c)\<rparr>)
        | Inr b5 \<Rightarrow>
            Inr (Some (c\<lparr>encodingSizes := AList.update cKey sz (encodingSizes c),
                         encodingKeys := AList.update cKey eKey (encodingKeys c)\<rparr>), b5))))))"

lemma parseEncodingEntry_step:
  assumes "parseEncodingEntry hc he c b = Inr (r, b')"
  shows "data b' = data b \<and> offset b < offset b'"
proof -
  from assms obtain k b1 where r1: "readUInt8 b = Inr (k, b1)"
    unfolding parseEncodingEntry_def by (auto split: sum.splits prod.splits)
  then have s1: "data b1 = data b \<and> offset b1 = offset b + 1"
    by (auto simp: readUInt8_def dest: readWith_step)
  show ?thesis
  proof (cases "k = 0")
    case True
    with assms r1 s1 show ?thesis
      by (simp add: parseEncodingEntry_def)
  next
    case False
    with assms r1 obtain sz cKey eKey b2 b3 b4 where
      r2: "readInt40BE b1 = Inr (sz, b2)" and
      r3: "readHexString hc b2 = Inr (cKey, b3)" and
      r4: "readHexString he b3 = Inr (eKey, b4)" and
      r5: "move (int he * (int k - 1)) b4 = Inr b'"
      unfolding parseEncodingEntry_def by (auto split: sum.splits prod.splits)
    from r2 have s2: "data b2 = data b1 \<and> offset b2 = offset b1 + 5"
      by (auto simp: readInt40BE_def dest: readWith_step)
    from r3 have s3: "data b3 = data b2 \<and> offset b3 = offset b2 + hc"
      by (auto simp: readHexString_def dest: readWith_step)
    from r4 have s4: "data b4 = data b3 \<and> offset b4 = offset b3 + he"
      by (auto simp: readHexString_def dest: readWith_step)
    from move_step [OF r5]
    have s5: "data b' = data b4 \<and> int (offset b') = int (offset b4) + int he * (int k - 1)"
      by simp
    from False have "0 \<le> int he * (int k - 1)" by simp
    with s1 s2 s3 s4 s5 show ?thesis by auto
  qed
qed

text \<open>
  The inner loop \<^verbatim>\<open>while (encoding.offset < (pageStart + pagesStart))\<close>, with the bound
  as the parameter \<open>limit\<close>. Every pass reads at least the key count, so the loop ends.
\<close>

function parseEncodingPage ::
  "nat \<Rightarrow> nat \<Rightarrow> nat \<Rightarrow> 'a casc_scheme \<Rightarrow> buffer
   \<Rightarrow> (error \<times> 'a casc_scheme) + ('a casc_scheme \<times> buffer)"
where
  "parseEncodingPage limit hashSizeCKey hashSizeEKey c b =
     (if offset b < limit
      then (case parseEncodingEntry hashSizeCKey hashSizeEKey c b of
              Inl failed \<Rightarrow> Inl failed
            | Inr (None, b') \<Rightarrow> Inr (c, b')
            | Inr (Some c', b') \<Rightarrow> parseEncodingPage limit hashSizeCKey hashSizeEKey c' b')
      else Inr (c, b))"
  by pat_completeness auto
termination
proof (relation "measure (\<lambda>(limit, hc, he, c, b). limit - offset b)")
  show "wf (measure (\<lambda>(limit, hc, he, c, b). limit - offset b))" by simp
next
  fix limit hc he :: nat and c c' :: "'a casc_scheme" and b b' :: buffer
    and x :: "'a casc_scheme option \<times> buffer" and r :: "'a casc_scheme option"
  assume lt: "offset b < limit"
    and ok: "parseEncodingEntry hc he c b = Inr x" and x: "(r, b') = x"
  from ok x have "parseEncodingEntry hc he c b = Inr (r, b')" by simp
  from parseEncodingEntry_step [OF this] lt
  show "((limit, hc, he, c', b'), (limit, hc, he, c, b))
        \<in> measure (\<lambda>(limit, hc, he, c, b). limit - offset b)"
    by auto
qed

declare parseEncodingPage.simps [simp del]

text \<open>
  The outer loop \<^verbatim>\<open>for (let i = 0; i < cKeyPageCount; i++)\<close>: \<open>n\<close> pages are left,
  \<open>i\<close> is the index of the next one.
\<close>

fun parseEncodingPages ::
  "nat \<Rightarrow> nat \<Rightarrow> nat \<Rightarrow> nat \<Rightarrow> nat \<Rightarrow> nat \<Rightarrow> 'a casc_scheme \<Rightarrow> buffer
   \<Rightarrow> (error \<times> 'a casc_scheme) + ('a casc_scheme \<times> buffer)"
where
  "parseEncodingPages 0 i pagesStart cKeyPageSize hashSizeCKey hashSizeEKey c b = Inr (c, b)"
| "parseEncodingPages (Suc n) i pagesStart cKeyPageSize hashSizeCKey hashSizeEKey c b =
     (let pageStart = pagesStart + cKeyPageSize * i
      in case seek pageStart b of Inl e \<Rightarrow> Inl (e, c) | Inr b1 \<Rightarrow>
        (case parseEncodingPage (pageStart + pagesStart) hashSizeCKey hashSizeEKey c b1 of
           Inl failed \<Rightarrow> Inl failed
         | Inr (c', b2) \<Rightarrow>
             parseEncodingPages n (Suc i) pagesStart cKeyPageSize hashSizeCKey hashSizeEKey c' b2))"

definition parseEncodingFile ::
  "blte_decoder \<Rightarrow> 'a casc_scheme \<Rightarrow> byte list \<Rightarrow> string
   \<Rightarrow> (error \<times> 'a casc_scheme) + 'a casc_scheme"
where
  "parseEncodingFile blte c raw hash =
     (case BLTEReader blte raw hash of Inl e \<Rightarrow> Inl (e, c) | Inr encoding \<Rightarrow>
     (case readUInt16 encoding of Inl e \<Rightarrow> Inl (e, c) | Inr (magic, e1) \<Rightarrow>
      if magic \<noteq> ENC_MAGIC
      then Inl (ErrorWith ''Invalid encoding magic: '' (Num (int magic)), c)
      else
     (case move 1 e1 of Inl e \<Rightarrow> Inl (e, c) | Inr e2 \<Rightarrow>
     (case readUInt8 e2 of Inl e \<Rightarrow> Inl (e, c) | Inr (hashSizeCKey, e3) \<Rightarrow>
     (case readUInt8 e3 of Inl e \<Rightarrow> Inl (e, c) | Inr (hashSizeEKey, e4) \<Rightarrow>
     (case readInt16BE e4 of Inl e \<Rightarrow> Inl (e, c) | Inr (cKeyPageSizeKB, e5) \<Rightarrow>
     (case move 2 e5 of Inl e \<Rightarrow> Inl (e, c) | Inr e6 \<Rightarrow>
     (case readInt32BE e6 of Inl e \<Rightarrow> Inl (e, c) | Inr (cKeyPageCount, e7) \<Rightarrow>
     (case move (4 + 1) e7 of Inl e \<Rightarrow> Inl (e, c) | Inr e8 \<Rightarrow>
     (case readInt32BE e8 of Inl e \<Rightarrow> Inl (e, c) | Inr (specBlockSize, e9) \<Rightarrow>
     (case move (specBlockSize + cKeyPageCount * (int hashSizeCKey + 16)) e9 of
        Inl e \<Rightarrow> Inl (e, c)
      | Inr e10 \<Rightarrow>
     (case parseEncodingPages (nat cKeyPageCount) 0 (offset e10) (cKeyPageSizeKB * 1024)
             hashSizeCKey hashSizeEKey c e10 of
        Inl failed \<Rightarrow> Inl failed
      | Inr (c', e11) \<Rightarrow> Inr c'))))))))))))"

section \<open>CASCRemote\<close>

text \<open>
  \<^verbatim>\<open>formatCDNKey(key) { return key.substring(0, 2) + '/' + key.substring(2, 4) + '/' + key; }\<close>
\<close>

definition formatCDNKey :: "string \<Rightarrow> string" where
  "formatCDNKey key = substring key 0 2 @ ''/'' @ substring key 2 4 @ ''/'' @ key"

subsection \<open>State and surroundings\<close>

text \<open>
  The remote source adds its own fields to the base class. \<open>builds\<close> can hold
  \<open>undefined\<close> elements; \<open>build\<close> is \<open>undefined\<close> until \<open>load\<close> picks one.
  The constructor never assigns \<open>archives\<close>, so the field is optional here.
\<close>

type_synonym archive_entry = "string \<times> nat \<times> nat"

record cascRemote = casc +
  region :: string
  host :: string
  builds :: "config_entry option list"
  build :: "config_entry option"
  archives :: "(string \<times> archive_entry list) list option"

text \<open>
  What the methods change outside the object: the files of the cache directory, the
  requests sent to the network (in the order they are sent) and the labels handed to
  \<open>this.progress.step\<close>.
\<close>

record session = cascRemote +
  cacheFiles :: "string \<Rightarrow> byte list option"
  requests :: "string list"
  progressSteps :: "string list"

text \<open>
  What the methods read from modules that are not among the sources, taken as
  parameters: the constants
  (\<open>constants.PRODUCTS\<close>, \<open>constants.PATCH\<close>, \<open>constants.CACHE\<close>, the content flags),
  the network (\<open>generics.get\<close> with \<open>consumeUTF8Stream\<close> gives a status code and a body,
  \<open>generics.downloadFile\<close> the bytes, \<open>generics.ping\<close> a latency), the order in which
  the pings of a host list settle (indices into the list), the parsers of the configuration
  documents and of an archive index, the BLTE decoder, the listfile loader, \<open>path.join\<close>
  and whether a cache file can be written.
\<close>

record environment =
  PRODUCTS :: "(string \<times> string) list"
  PATCH_HOST :: "string \<Rightarrow> string"
  VERSION_CONFIG :: string
  SERVER_CONFIG :: string
  ARCHIVE_INDEXES :: string
  ContentFlags :: content_flags
  generics_get :: "string \<Rightarrow> error + (nat \<times> string)"
  generics_downloadFile :: "string \<Rightarrow> error + byte list"
  generics_ping :: "string \<Rightarrow> error + nat"
  settleOrder :: "string list \<Rightarrow> nat list"
  VersionConfig :: "string \<Rightarrow> config_entry list"
  CDNConfig :: "string \<Rightarrow> config_entry"
  blteDecode :: blte_decoder
  parseArchiveIndex :: "byte list \<Rightarrow> error + archive_entry list"
  listfile_loadListfile :: "string option \<Rightarrow> error + nat"
  path_join :: "string \<Rightarrow> string \<Rightarrow> string"
  writable :: "string \<Rightarrow> bool"

text \<open>
  A method is a function from the session to a result and the session it leaves; an
  exception leaves the session as it was when it was thrown.
\<close>

type_synonym 'a prog = "session \<Rightarrow> (error + 'a) \<times> session"

definition ret :: "'a \<Rightarrow> 'a prog" where
  "ret x s = (Inr x, s)"

definition throw :: "error \<Rightarrow> 'a prog" where
  "throw e s = (Inl e, s)"

definition andThen :: "'a prog \<Rightarrow> ('a \<Rightarrow> 'b prog) \<Rightarrow> 'b prog" where
  "andThen m f s = (case m s of (Inl e, s') \<Rightarrow> (Inl e, s') | (Inr x, s') \<Rightarrow> f x s')"

definition catch :: "'a prog \<Rightarrow> (error \<Rightarrow> 'a prog) \<Rightarrow> 'a prog" where
  "catch m h s = (case m s of (Inl e, s') \<Rightarrow> h e s' | (Inr x, s') \<Rightarrow> (Inr x, s'))"

definition gets :: "(session \<Rightarrow> 'a) \<Rightarrow> 'a prog" where
  "gets f s = (Inr (f s), s)"

definition modify :: "(session \<Rightarrow> session) \<Rightarrow> unit prog" where
  "modify f s = (Inr (), f s)"

definition lift :: "error + 'a \<Rightarrow> 'a prog" where
  "lift r s = (r, s)"

definition step :: "string \<Rightarrow> unit prog" where
  "step label = modify (\<lambda>s. s\<lparr>progressSteps := progressSteps s @ [label]\<rparr>)"

definition request :: "string \<Rightarrow> unit prog" where
  "request url = modify (\<lambda>s. s\<lparr>requests := requests s @ [url]\<rparr>)"

text \<open>
  Reading a property: of \<open>undefined\<close> it throws a \<open>TypeError\<close>, of an object it gives the
  value or \<open>undefined\<close>. \<open>jsstr\<close> is the string an optional value concatenates as.
\<close>

definition getProp :: "config_entry option \<Rightarrow> string \<Rightarrow> string option prog" where
  "getProp obj name = (case obj of None \<Rightarrow> throw TypeError | Some e \<Rightarrow> ret (map_of e name))"

definition jsstr :: "string option \<Rightarrow> string" where
  "jsstr v = (case v of None \<Rightarrow> ''undefined'' | Some x \<Rightarrow> x)"

text \<open>\<open>s.split(' ')\<close>: every separator cuts, so two in a row give an empty string.\<close>

fun split :: "char \<Rightarrow> string \<Rightarrow> string list" where
  "split sep [] = [[]]"
| "split sep (x # xs) =
     (if x = sep then [] # split sep xs
      else (case split sep xs of [] \<Rightarrow> [[x]] | w # ws \<Rightarrow> (x # w) # ws))"

text \<open>
  \<open>Promise.allSettled\<close> over calls started together: every call runs to its end, and
  the outcomes come in the order of the calls.
\<close>

fun allSettled :: "'a prog list \<Rightarrow> (error + 'a) list prog" where
  "allSettled [] s = (Inr [], s)"
| "allSettled (p # ps) s =
     (case p s of (r, s1) \<Rightarrow>
        (case allSettled ps s1 of
           (Inl e, s2) \<Rightarrow> (Inl e, s2)
         | (Inr rs, s2) \<Rightarrow> (Inr (r # rs), s2)))"

text \<open>
  Modelled from the spec: \<open>generics.queue(items, handler, limit)\<close> is not among the
  sources. The spec has it run the handler on every item, at most \<open>limit\<close> calls in
  flight, and wait for every branch before the outcomes are put together: a handler that
  fails stops no other. As for \<open>Promise.allSettled\<close> above, every call runs to its end,
  in the order of the items (one call in flight is within any limit). The queue then
  throws the first failure in that order, if there is one; the spec does not say which
  failure is thrown when several handlers fail.
\<close>

fun firstFailure :: "(error + 'a) list \<Rightarrow> error option" where
  "firstFailure [] = None"
| "firstFailure (Inl e # rs) = Some e"
| "firstFailure (Inr x # rs) = firstFailure rs"

definition queue :: "'a list \<Rightarrow> ('a \<Rightarrow> unit prog) \<Rightarrow> nat \<Rightarrow> unit prog" where
  "queue items handler limit =
     andThen (allSettled (map handler items)) (\<lambda>outcomes.
       case firstFailure outcomes of None \<Rightarrow> ret () | Some e \<Rightarrow> throw e)"

subsection \<open>Discovery\<close>

definition httpGet :: "environment \<Rightarrow> string \<Rightarrow> (nat \<times> string) prog" where
  "httpGet env url = andThen (request url) (\<lambda>_. lift (generics_get env url))"

definition getConfig :: "environment \<Rightarrow> string \<Rightarrow> string \<Rightarrow> config_entry list prog" where
  "getConfig env product file =
     andThen (gets host) (\<lambda>h.
       let url = h @ product @ file in
       andThen (httpGet env url) (\<lambda>(statusCode, body).
         if statusCode \<noteq> 200
         then throw (ErrorFormat ''HTTP %d from remote CASC endpoint: %s'' [Num (int statusCode), Str url])
         else ret (VersionConfig env body)))"

definition getVersionConfig :: "environment \<Rightarrow> string \<Rightarrow> config_entry list prog" where
  "getVersionConfig env product =
     andThen (getConfig env product (VERSION_CONFIG env)) (\<lambda>config.
       ret (map (AList.update ''Product'' product) config))"

text \<open>
  The loop of \<open>init\<close> over the settled results:
  \<^verbatim>\<open>if (result.status === 'fulfilled') this.builds.push(result.value.find(e => e.Region === this.region));\<close>
  \<open>find\<close> gives \<open>undefined\<close> when no entry has the region, and that is pushed as well.
\<close>

fun pushBuilds ::
  "string \<Rightarrow> (error + config_entry list) list \<Rightarrow> config_entry option list \<Rightarrow> config_entry option list"
where
  "pushBuilds r [] bs = bs"
| "pushBuilds r (Inl e # results) bs = pushBuilds r results bs"
| "pushBuilds r (Inr config # results) bs =
     pushBuilds r results (bs @ [find (\<lambda>e. map_of e ''Region'' = Some r) config])"

definition init :: "environment \<Rightarrow> unit prog" where
  "init env =
     andThen (modify (\<lambda>s. s\<lparr>host := PATCH_HOST env (region s), builds := []\<rparr>)) (\<lambda>_.
     andThen (allSettled (map (getVersionConfig env) (map fst (PRODUCTS env)))) (\<lambda>results.
       modify (\<lambda>s. s\<lparr>builds := pushBuilds (region s) results (builds s)\<rparr>)))"

text \<open>
  \<open>getProductList\<close>: \<open>entry.Product\<close> on an \<open>undefined\<close> element throws.
  \<open>util.format('%s %s', a, b)\<close> joins the two values with a space.
\<close>

fun productList :: "(string \<times> string) list \<Rightarrow> config_entry option list \<Rightarrow> error + string list" where
  "productList ps [] = Inr []"
| "productList ps (None # entries) = Inl TypeError"
| "productList ps (Some entry # entries) =
     (case productList ps entries of
        Inl e \<Rightarrow> Inl e
      | Inr products \<Rightarrow>
          Inr ((jsstr (case map_of entry ''Product'' of None \<Rightarrow> None | Some p \<Rightarrow> map_of ps p) @ '' '' @
                jsstr (map_of entry ''VersionsName'')) # products))"

definition getProductList :: "environment \<Rightarrow> 'a cascRemote_scheme \<Rightarrow> error + string list" where
  "getProductList env s = productList (PRODUCTS env) (builds s)"

subsection \<open>The stages of the load\<close>

definition loadServerConfig :: "environment \<Rightarrow> unit prog" where
  "loadServerConfig env =
     andThen (step ''Fetching CDN configuration'') (\<lambda>_.
     andThen (gets build) (\<lambda>b.
     andThen (getProp b ''Product'') (\<lambda>product.
     andThen (getConfig env (jsstr product) (SERVER_CONFIG env)) (\<lambda>serverConfigs.
     andThen (gets region) (\<lambda>r.
     andThen (modify (\<lambda>s. s\<lparr>serverConfig := find (\<lambda>e. map_of e ''Name'' = Some r) serverConfigs\<rparr>)) (\<lambda>_.
     andThen (gets serverConfig) (\<lambda>sc.
       if sc = None
       then throw (ErrorWith ''CDN config does not contain entry for region '' (Str r))
       else ret ())))))))"

text \<open>
  The callback of a ping that resolved, applied in the order the pings settle; a ping
  that failed changes nothing:
  \<^verbatim>\<open>if (bestHost === null || ping < bestHost.ping) bestHost = { host, ping };\<close>
\<close>

definition pingSettled ::
  "environment \<Rightarrow> string list \<Rightarrow> (string \<times> nat) option \<Rightarrow> nat \<Rightarrow> (string \<times> nat) option"
where
  "pingSettled env hosts bestHost i =
     (if i < length hosts
      then (case generics_ping env (hosts ! i) of
              Inl e \<Rightarrow> bestHost
            | Inr p \<Rightarrow>
                (case bestHost of
                   None \<Rightarrow> Some (hosts ! i, p)
                 | Some (h, bp) \<Rightarrow> if p < bp then Some (hosts ! i, p) else bestHost))
      else bestHost)"

definition resolveCDNHost :: "environment \<Rightarrow> unit prog" where
  "resolveCDNHost env =
     andThen (step ''Locating fastest CDN server'') (\<lambda>_.
     andThen (gets serverConfig) (\<lambda>sc.
     andThen (getProp sc ''Hosts'') (\<lambda>hostsProp.
       case hostsProp of
         None \<Rightarrow> throw TypeError
       | Some hs \<Rightarrow>
           (let hosts = map (\<lambda>e. ''http://'' @ e @ ''/'') (split (CHR '' '') hs) in
            andThen (modify (\<lambda>s. s\<lparr>requests := requests s @ hosts\<rparr>)) (\<lambda>_.
              case foldl (pingSettled env hosts) None (settleOrder env hosts) of
                None \<Rightarrow> throw (Error ''Unable to resolve a CDN host.'')
              | Some (bestHost, bestPing) \<Rightarrow>
                  andThen (getProp sc ''Path'') (\<lambda>path.
                    modify (\<lambda>s. s\<lparr>host := bestHost @ jsstr path @ ''/''\<rparr>)))))))"

definition getCDNConfig :: "environment \<Rightarrow> string option \<Rightarrow> config_entry prog" where
  "getCDNConfig env key =
     (case key of
        None \<Rightarrow> throw TypeError
      | Some k \<Rightarrow>
          andThen (gets host) (\<lambda>h.
            let url = h @ ''config/'' @ formatCDNKey k in
            andThen (httpGet env url) (\<lambda>(statusCode, body).
              if statusCode \<noteq> 200
              then throw (ErrorFormat ''Unable to retrieve CDN config file %s (HTTP %d)''
                            [Str k, Num (int statusCode)])
              else ret (CDNConfig env body))))"

definition loadConfigs :: "environment \<Rightarrow> unit prog" where
  "loadConfigs env =
     andThen (step ''Fetching build configurations'') (\<lambda>_.
     andThen (gets build) (\<lambda>b.
     andThen (getProp b ''CDNConfig'') (\<lambda>cdnKey.
     andThen (getCDNConfig env cdnKey) (\<lambda>cc.
     andThen (modify (\<lambda>s. s\<lparr>cdnConfig := Some cc\<rparr>)) (\<lambda>_.
     andThen (getProp b ''BuildConfig'') (\<lambda>buildKey.
     andThen (getCDNConfig env buildKey) (\<lambda>bc.
       modify (\<lambda>s. s\<lparr>buildConfig := Some bc\<rparr>))))))))"

definition getDataFile :: "environment \<Rightarrow> string \<Rightarrow> byte list prog" where
  "getDataFile env file =
     andThen (gets host) (\<lambda>h.
       let url = h @ ''data/'' @ file in
       andThen (request url) (\<lambda>_. lift (generics_downloadFile env url)))"

definition readFile :: "string \<Rightarrow> byte list prog" where
  "readFile path =
     andThen (gets cacheFiles) (\<lambda>files.
       case files path of None \<Rightarrow> throw IOError | Some bytes \<Rightarrow> ret bytes)"

definition writeToFile :: "environment \<Rightarrow> string \<Rightarrow> byte list \<Rightarrow> unit prog" where
  "writeToFile env path bytes =
     (if writable env path
      then modify (\<lambda>s. s\<lparr>cacheFiles := (cacheFiles s)(path \<mapsto> bytes)\<rparr>)
      else throw IOError)"

definition cachePath :: "environment \<Rightarrow> string \<Rightarrow> string" where
  "cachePath env key = path_join env (ARCHIVE_INDEXES env) (key @ ''.index'')"

text \<open>
  \<^verbatim>\<open>try { data = await BufferWrapper.readFile(cachePath); }
  catch (e) { data = await this.getDataFile(cdnKey); await data.writeToFile(cachePath); }
  return this.parseArchiveIndex(data);\<close>
\<close>

definition getArchiveIndex :: "environment \<Rightarrow> string \<Rightarrow> archive_entry list prog" where
  "getArchiveIndex env key =
     (let cdnKey = formatCDNKey key @ ''.index'' in
      andThen
        (catch (readFile (cachePath env key)) (\<lambda>e.
           andThen (getDataFile env cdnKey) (\<lambda>bytes.
           andThen (writeToFile env (cachePath env key) bytes) (\<lambda>_. ret bytes))))
        (\<lambda>bytes. lift (parseArchiveIndex env bytes)))"

definition setArchive :: "string \<Rightarrow> archive_entry list \<Rightarrow> unit prog" where
  "setArchive key entries =
     andThen (gets archives) (\<lambda>a.
       case a of
         None \<Rightarrow> throw TypeError
       | Some m \<Rightarrow> modify (\<lambda>s. s\<lparr>archives := Some (AList.update key entries m)\<rparr>))"

definition loadArchives :: "environment \<Rightarrow> unit prog" where
  "loadArchives env =
     andThen (gets cdnConfig) (\<lambda>cc.
     andThen (getProp cc ''archives'') (\<lambda>archivesProp.
       case archivesProp of
         None \<Rightarrow> throw TypeError
       | Some a \<Rightarrow>
           andThen (step ''Fetching archives'') (\<lambda>_.
           andThen (queue (split (CHR '' '') a)
                      (\<lambda>key. andThen (getArchiveIndex env key) (setArchive key)) 50) (\<lambda>_.
           andThen (getProp cc ''archivesIndexSize'') (\<lambda>sizes.
             case sizes of None \<Rightarrow> throw TypeError | Some x \<Rightarrow> ret ())))))"

text \<open>
  A parser run on the tables of the session. When the parser throws, the session keeps
  the rows it had written before.
\<close>

definition parseInto :: "(session \<Rightarrow> (error \<times> session) + session) \<Rightarrow> unit prog" where
  "parseInto parser s =
     (case parser s of Inl (e, s') \<Rightarrow> (Inl e, s') | Inr s' \<Rightarrow> (Inr (), s'))"

definition loadEncoding :: "environment \<Rightarrow> unit prog" where
  "loadEncoding env =
     andThen (gets buildConfig) (\<lambda>bc.
     andThen (getProp bc ''encoding'') (\<lambda>encodingProp.
       case encodingProp of
         None \<Rightarrow> throw TypeError
       | Some enc \<Rightarrow>
           (case drop 1 (split (CHR '' '') enc) of
              [] \<Rightarrow> throw TypeError
            | encKey # others \<Rightarrow>
                andThen (step ''Fetching encoding table'') (\<lambda>_.
                andThen (getDataFile env (formatCDNKey encKey)) (\<lambda>encRaw.
                andThen (step ''Parsing encoding table'') (\<lambda>_.
                  parseInto (\<lambda>s. parseEncodingFile (blteDecode env) s encRaw encKey)))))))"

definition loadRoot :: "environment \<Rightarrow> unit prog" where
  "loadRoot env =
     andThen (gets buildConfig) (\<lambda>bc.
     andThen (getProp bc ''root'') (\<lambda>rootProp.
     andThen (gets encodingKeys) (\<lambda>keys.
       case (case rootProp of None \<Rightarrow> None | Some r \<Rightarrow> map_of keys r) of
         None \<Rightarrow> throw (Error ''No encoding entry found for root key'')
       | Some rootKey \<Rightarrow>
           andThen (step ''Fetching root file'') (\<lambda>_.
           andThen (getDataFile env (formatCDNKey rootKey)) (\<lambda>root.
           andThen (step ''Parsing root file'') (\<lambda>_.
             parseInto (\<lambda>s. map_sum id snd
               (parseRootFile (blteDecode env) (ContentFlags env) s root rootKey))))))))"

definition loadListfile :: "environment \<Rightarrow> unit prog" where
  "loadListfile env =
     andThen (step ''Loading listfile'') (\<lambda>_.
     andThen (gets build) (\<lambda>b.
     andThen (getProp b ''BuildConfig'') (\<lambda>buildKey.
     andThen (lift (listfile_loadListfile env buildKey)) (\<lambda>entries.
       if entries = 0 then throw (Error ''No listfile entries found'') else ret ()))))"

text \<open>
  \<open>load(buildIndex)\<close>: \<open>this.builds[buildIndex]\<close> is \<open>undefined\<close> past the end of
  the list; \<open>core.createProgress(9)\<close> starts a new progress with no step shown.
\<close>

definition load :: "environment \<Rightarrow> nat \<Rightarrow> unit prog" where
  "load env buildIndex =
     andThen (modify (\<lambda>s. s\<lparr>build := (if buildIndex < length (builds s) then builds s ! buildIndex else None),
                               progressSteps := []\<rparr>)) (\<lambda>_.
     andThen (loadServerConfig env) (\<lambda>_.
     andThen (resolveCDNHost env) (\<lambda>_.
     andThen (loadConfigs env) (\<lambda>_.
     andThen (loadArchives env) (\<lambda>_.
     andThen (loadEncoding env) (\<lambda>_.
     andThen (loadRoot env) (\<lambda>_.
       loadListfile env)))))))"

section \<open>Observing a load\<close>




text \<open>
  \<open>emits labels m\<close>: a run of \<open>m\<close> appends an initial part of \<open>labels\<close> to the
  steps shown, and all of them when it returns. \<open>untouched label f m\<close>: a run of \<open>m\<close>
  only appends steps, and leaves \<open>f\<close> of the session as it was unless it shows \<open>label\<close>.
  \<open>world_only m\<close>: \<open>m\<close> changes nothing of the session but the requests sent and the
  cache files.
\<close>

definition emits :: "string list \<Rightarrow> 'a prog \<Rightarrow> bool" where
  "emits labels m \<longleftrightarrow>
     (\<forall>s. \<exists>n. progressSteps (snd (m s)) = progressSteps s @ take n labels \<and>
               (\<not> isl (fst (m s)) \<longrightarrow> take n labels = labels))"



text \<open>
  The outcome of \<open>getVersionConfig\<close> for a product, given the host.
\<close>

definition versionOutcome :: "environment \<Rightarrow> string \<Rightarrow> string \<Rightarrow> error + config_entry list" where
  "versionOutcome env h product =
     (case generics_get env (h @ product @ VERSION_CONFIG env) of
        Inl e \<Rightarrow> Inl e
      | Inr (statusCode, body) \<Rightarrow>
          if statusCode \<noteq> 200
          then Inl (ErrorFormat ''HTTP %d from remote CASC endpoint: %s''
                      [Num (int statusCode), Str (h @ product @ VERSION_CONFIG env)])
          else Inr (map (AList.update ''Product'' product) (VersionConfig env body)))"

section \<open>Example tables\<close>

text \<open>
  Concrete tables and buffers on which the properties below are evaluated. The flag bits
  are those of the game client: low violence \<open>0x80\<close>, no name hash \<open>0x10000000\<close>;
  the locale is \<open>enUS\<close> (\<open>0x2\<close>).
\<close>

definition demo_flags :: content_flags where
  "demo_flags = \<lparr>LowViolence = 0x80, NoNameHash = 0x10000000\<rparr>"

definition demo_casc :: casc where
  "demo_casc =
     \<lparr>cascLocale = 0x2,
      encodingSizes = [(''aa'', 10)],
      encodingKeys = [(''aa'', ''ee'')],
      rootEntries = [(1, [(1, ''bb''), (0, ''aa'')]), (2, [(1, ''bb''), (2, ''cc'')]), (3, [(0, ''dd'')])],
      rootTypes = [\<lparr>contentFlags = 0, localeFlags = 0x2\<rparr>,
                   \<lparr>contentFlags = 0, localeFlags = 0x10\<rparr>,
                   \<lparr>contentFlags = 0x80, localeFlags = 0x2\<rparr>],
      buildConfig = None, cdnConfig = None, serverConfig = None\<rparr>"

text \<open>
  The lookup as the spec words it: resolve the key as \<open>getFile\<close> does, retrieve the
  physical bytes (\<open>fetch\<close>, the part of the Local or Remote variant) and BLTE-decode them.
\<close>

definition getFile_spec ::
  "content_flags \<Rightarrow> (string \<Rightarrow> error + byte list) \<Rightarrow> blte_decoder \<Rightarrow> 'a casc_scheme \<Rightarrow> int
   \<Rightarrow> error + file_result"
where
  "getFile_spec cf fetch blte c fileDataID =
     (case getFile cf c fileDataID of
        Inl e \<Rightarrow> Inl e
      | Inr (FileData bytes) \<Rightarrow> Inr (FileData bytes)
      | Inr (EncodingKey encodingKey) \<Rightarrow>
          (case fetch encodingKey of
             Inl e \<Rightarrow> Inl e
           | Inr raw \<Rightarrow>
               (case blte raw encodingKey of
                  Inl e \<Rightarrow> Inl e
                | Inr bytes \<Rightarrow> Inr (FileData bytes))))"

text \<open>
  A store with one blob under the encoding key \<open>ee\<close>, and a decoder that strips the
  four bytes \<open>BLTE\<close> from a container.
\<close>

definition demo_fetch :: "string \<Rightarrow> error + byte list" where
  "demo_fetch encodingKey =
     (if encodingKey = ''ee'' then Inr [0x42, 0x4C, 0x54, 0x45, 0x01, 0x02] else Inl (Error ''not found''))"

definition demo_blte :: blte_decoder where
  "demo_blte raw hash = (if take 4 raw = [0x42, 0x4C, 0x54, 0x45] then Inr (drop 4 raw) else Inl BLTEError)"

text \<open>
  A client with empty tables, and a root file of the modern layout: the magic \<open>TSFM\<close>
  with both counts 1, then one block of one record with the no-name-hash bit set, the
  locale \<open>enUS\<close>, the delta 5 and a content key, then the 8 bytes of its name hash.
\<close>

definition demo_empty :: casc where
  "demo_empty =
     \<lparr>cascLocale = 0x2, encodingSizes = [], encodingKeys = [], rootEntries = [], rootTypes = [],
      buildConfig = None, cdnConfig = None, serverConfig = None\<rparr>"

definition demo_key :: "byte list" where
  "demo_key = [0x49, 0x29, 0x9e, 0xae, 0x4e, 0x3a, 0x19, 0x59, 0x53, 0x76, 0x4b, 0xb4, 0xad, 0xb3, 0xc9, 0x1f]"

definition demo_block :: "byte list" where
  "demo_block =
     [0x01, 0x00, 0x00, 0x00] @ [0x00, 0x00, 0x00, 0x10] @ [0x02, 0x00, 0x00, 0x00] @
     [0x05, 0x00, 0x00, 0x00] @ demo_key"

definition demo_hashes :: "byte list" where
  "demo_hashes = [0xa1, 0xa2, 0xa3, 0xa4, 0xa5, 0xa6, 0xa7, 0xa8]"

definition demo_root_header :: "byte list" where
  "demo_root_header = [0x54, 0x53, 0x46, 0x4D] @ [0x01, 0x00, 0x00, 0x00] @ [0x01, 0x00, 0x00, 0x00]"

text \<open>A header with \<open>totalFileCount = 2\<close> and \<open>namedFileCount = 1\<close>.\<close>

definition demo_root_header_nameless :: "byte list" where
  "demo_root_header_nameless =
     [0x54, 0x53, 0x46, 0x4D] @ [0x02, 0x00, 0x00, 0x00] @ [0x01, 0x00, 0x00, 0x00]"

text \<open>The offset a block parser stops at, and a decoder for data that is not wrapped.\<close>

definition endOffset :: "(error \<times> 'a) + ('a \<times> buffer) \<Rightarrow> error + nat" where
  "endOffset r = (case r of Inl (e, c) \<Rightarrow> Inl e | Inr (c, b) \<Rightarrow> Inr (offset b))"

definition id_blte :: blte_decoder where
  "id_blte raw hash = Inr raw"

lemmas reader_defs = readUInt8_def readUInt16_def readUInt32_def readInt32_def readInt16BE_def
  readInt32BE_def readInt40BE_def readHexString_def readContentKey_def readWith_def readBytes_def
  move_def seek_def be_nat_def signed_of_def BLTEReader_def

text \<open>
  A synthetic encoding table, written field by field as the spec lays the file out:
  \<open>be_bytes n v\<close> is the big-endian encoding of \<open>v\<close> on \<open>n\<close> bytes, and
  \<open>encodingHeader\<close> the 22 bytes before the spec block.
\<close>

fun be_bytes :: "nat \<Rightarrow> nat \<Rightarrow> byte list" where
  "be_bytes 0 v = []"
| "be_bytes (Suc n) v = be_bytes n (v div 256) @ [of_nat (v mod 256)]"

definition encodingHeader ::
  "byte \<Rightarrow> nat \<Rightarrow> nat \<Rightarrow> nat \<Rightarrow> byte list \<Rightarrow> nat \<Rightarrow> byte list \<Rightarrow> byte \<Rightarrow> nat \<Rightarrow> byte list"
where
  "encodingHeader version hashSizeCKey hashSizeEKey cKeyPageSizeKB eKeyPageSizeKB cKeyPageCount
     eKeyPageCount unk11 specBlockSize =
     [0x45, 0x4E] @ [version] @ [of_nat hashSizeCKey] @ [of_nat hashSizeEKey] @
     be_bytes 2 cKeyPageSizeKB @ eKeyPageSizeKB @ be_bytes 4 cKeyPageCount @ eKeyPageCount @
     [unk11] @ be_bytes 4 specBlockSize"

text \<open>
  The example table: 16-byte keys, pages of 4 KB, a spec block of two bytes, a page index
  of 32 bytes, and one page with one entry of two encoding keys and the size
  \<open>0x8000000005\<close>, which needs all 40 bits.
\<close>

definition demo_ekey1 :: "byte list" where
  "demo_ekey1 = [0x10, 0x11, 0x12, 0x13, 0x14, 0x15, 0x16, 0x17, 0x18, 0x19, 0x1a, 0x1b, 0x1c, 0x1d, 0x1e, 0x1f]"

definition demo_ekey2 :: "byte list" where
  "demo_ekey2 = [0x20, 0x21, 0x22, 0x23, 0x24, 0x25, 0x26, 0x27, 0x28, 0x29, 0x2a, 0x2b, 0x2c, 0x2d, 0x2e, 0x2f]"

definition demo_encoding :: "byte list" where
  "demo_encoding =
     encodingHeader 1 (length demo_key) (length demo_ekey1) 4 [0x00, 0x04] 1 [0x00, 0x00, 0x00, 0x01] 0
       (length [0x7a :: byte, 0x3a]) @
     [0x7a, 0x3a] @ replicate 32 0xff @
     ([2] @ be_bytes 5 0x8000000005 @ demo_key @ demo_ekey1 @ demo_ekey2) @
     replicate (4 * 1024 - (6 + length demo_key + 2 * length demo_ekey1)) 0 @ []"

text \<open>
  A product server with two products, of which only the first has a build for the region
  \<open>eu\<close>, three hosts that answer a ping in 50, 10 and 80 ms, one archive, the encoding
  table and the root file above.
\<close>

definition demo_get :: "string \<Rightarrow> error + (nat \<times> string)" where
  "demo_get url =
     (if url = ''http://eu.patch.example/wow/versions'' then Inr (200, ''versions of wow'')
      else if url = ''http://eu.patch.example/wowt/versions'' then Inr (200, ''versions of wowt'')
      else if url = ''http://eu.patch.example/wow/cdns'' then Inr (200, ''cdns of wow'')
      else if url = ''http://b.example/tpr/wow/config/cd/01/cd01'' then Inr (200, ''cdn config'')
      else if url = ''http://b.example/tpr/wow/config/bc/01/bc01'' then Inr (200, ''build config'')
      else Inr (404, ''''))"

definition demo_VersionConfig :: "string \<Rightarrow> config_entry list" where
  "demo_VersionConfig body =
     (if body = ''versions of wow''
      then [[(''Region'', ''us''), (''BuildConfig'', ''bc00''), (''CDNConfig'', ''cd00''),
             (''VersionsName'', ''9.0.1'')],
            [(''Region'', ''eu''), (''BuildConfig'', ''bc01''), (''CDNConfig'', ''cd01''),
             (''VersionsName'', ''9.0.1'')]]
      else if body = ''versions of wowt''
      then [[(''Region'', ''us''), (''BuildConfig'', ''bc02''), (''CDNConfig'', ''cd02''),
             (''VersionsName'', ''9.0.2'')]]
      else if body = ''cdns of wow''
      then [[(''Name'', ''eu''), (''Path'', ''tpr/wow''),
             (''Hosts'', ''a.example b.example c.example'')]]
      else [])"

definition demo_CDNConfig :: "string \<Rightarrow> config_entry" where
  "demo_CDNConfig body =
     (if body = ''cdn config'' then [(''archives'', ''ar01''), (''archivesIndexSize'', ''3'')]
      else if body = ''build config''
      then [(''root'', ''49299eae4e3a195953764bb4adb3c91f''), (''encoding'', ''ck00 ek00'')]
      else [])"

definition demo_downloadFile :: "string \<Rightarrow> error + byte list" where
  "demo_downloadFile url =
     (if url = ''http://b.example/tpr/wow/data/ar/01/ar01.index'' then Inr [0x61, 0x72, 0x01]
      else if url = ''http://b.example/tpr/wow/data/ek/00/ek00'' then Inr demo_encoding
      else if url = ''http://b.example/tpr/wow/data/10/11/101112131415161718191a1b1c1d1e1f''
      then Inr (demo_root_header @ demo_block @ demo_hashes)
      else Inl NetworkError)"

definition demo_ping :: "string \<Rightarrow> error + nat" where
  "demo_ping h =
     (if h = ''http://a.example/'' then Inr 50
      else if h = ''http://b.example/'' then Inr 10
      else if h = ''http://c.example/'' then Inr 80
      else Inl NetworkError)"

definition demo_env :: environment where
  "demo_env =
     \<lparr>PRODUCTS = [(''wow'', ''World of Warcraft''), (''wowt'', ''PTR: World of Warcraft'')],
      PATCH_HOST = (\<lambda>r. ''http://'' @ r @ ''.patch.example/''),
      VERSION_CONFIG = ''/versions'',
      SERVER_CONFIG = ''/cdns'',
      ARCHIVE_INDEXES = ''cache/indices'',
      ContentFlags = demo_flags,
      generics_get = demo_get,
      generics_downloadFile = demo_downloadFile,
      generics_ping = demo_ping,
      settleOrder = (\<lambda>hosts. if length hosts = 3 then [1, 2, 0] else []),
      VersionConfig = demo_VersionConfig,
      CDNConfig = demo_CDNConfig,
      blteDecode = id_blte,
      parseArchiveIndex = (\<lambda>bytes. Inr [(''ek00'', 0, length bytes)]),
      listfile_loadListfile = (\<lambda>buildKey. Inr 1),
      path_join = (\<lambda>dir file. dir @ ''/'' @ file),
      writable = (\<lambda>path. True)\<rparr>"

definition demo_session :: session where
  "demo_session =
     \<lparr>cascLocale = 0x2, encodingSizes = [], encodingKeys = [], rootEntries = [], rootTypes = [],
      buildConfig = None, cdnConfig = None, serverConfig = None,
      region = ''eu'', host = '''', builds = [], build = None, archives = Some [],
      cacheFiles = (\<lambda>path. None), requests = [], progressSteps = []\<rparr>"

definition demo_build :: config_entry where
  "demo_build = [(''Region'', ''eu''), (''BuildConfig'', ''bc01''), (''CDNConfig'', ''cd01''),
                 (''VersionsName'', ''9.0.1''), (''Product'', ''wow'')]"

definition demo_ready :: session where
  "demo_ready = demo_session\<lparr>host := ''http://eu.patch.example/'', builds := [Some demo_build, None]\<rparr>"

definition demo_configured :: session where
  "demo_configured =
     demo_ready\<lparr>build := Some demo_build,
       serverConfig := Some [(''Name'', ''eu''), (''Path'', ''tpr/wow''),
                             (''Hosts'', ''a.example b.example c.example'')]\<rparr>"



lemmas prog_defs = ret_def throw_def andThen_def catch_def gets_def modify_def lift_def step_def
  request_def getProp_def


section \<open>Properties\<close>

subsection \<open>CDN key sharding\<close>

lemma take2_of_long: "2 \<le> length s \<Longrightarrow> take 2 s = [s ! 0, s ! 1]"
  by (cases s; cases "tl s") auto

text \<open>
  C8: for every key of length at least 4, \<open>formatCDNKey key\<close> is the first two
  characters of the key, a slash, the next two characters, a slash, and the whole key,
  whatever the characters are.
\<close>

theorem formatCDNKey_shards:
  assumes "4 \<le> length key"
  shows "formatCDNKey key = [key ! 0, key ! 1] @ ''/'' @ [key ! 2, key ! 3] @ ''/'' @ key"
proof -
  have a: "take 2 key = [key ! 0, key ! 1]"
    using assms by (simp add: take2_of_long)
  have "take 2 (drop 2 key) = [drop 2 key ! 0, drop 2 key ! 1]"
    using assms by (simp add: take2_of_long)
  then have b: "take 2 (drop 2 key) = [key ! 2, key ! 3]"
    using assms by simp
  show ?thesis
    using a b by (simp add: formatCDNKey_def substring_def)
qed

theorem formatCDNKey_shards_witness:
  "4 \<le> length ''49299eae4e3a195953764bb4adb3c91f'' \<and>
   formatCDNKey ''49299eae4e3a195953764bb4adb3c91f'' = ''49/29/49299eae4e3a195953764bb4adb3c91f''"
  using formatCDNKey_shards [of "''49299eae4e3a195953764bb4adb3c91f''"] by simp

subsection \<open>File lookup\<close>

lemma selectContentKey_none:
  "\<forall>(idx, key) \<in> set root. idx < length rts \<and> \<not> matchesLocale cf loc (rts ! idx) \<Longrightarrow>
   selectContentKey cf loc rts root = Inr None"
  by (induction root) auto

lemma selectContentKey_first:
  assumes "\<forall>(idx, key) \<in> set pre. idx < length rts \<and> \<not> matchesLocale cf loc (rts ! idx)"
    and "i < length rts" and "matchesLocale cf loc (rts ! i)"
  shows "selectContentKey cf loc rts (pre @ (i, k) # post) = Inr (Some k)"
  using assms by (induction pre) auto

text \<open>
  C3: \<open>getFile\<close> fails with a different error at each stage of the resolution. For a
  fileDataID with no root entry it throws \<open>fileDataID does not exist in root\<close> (the
  spec's "no root entry"); for one whose variants all miss the active locale or carry the
  low-violence flag it throws \<open>No root entry found for locale\<close> ("no entry for
  locale"); for one whose selected content key is not in the encoding table it throws
  \<open>No encoding entry found\<close> ("no encoding entry"). The three messages differ.
\<close>

theorem getFile_errors:
  "(map_of (rootEntries c) fid1 = None \<longrightarrow>
      getFile cf c fid1 = Inl (ErrorWith ''fileDataID does not exist in root: '' (Num fid1))) \<and>
   (map_of (rootEntries c) fid2 = Some root2 \<and>
    (\<forall>(idx, key) \<in> set root2. idx < length (rootTypes c) \<and>
       (localeFlags (rootTypes c ! idx) AND cascLocale c = 0 \<or>
        contentFlags (rootTypes c ! idx) AND LowViolence cf \<noteq> 0)) \<longrightarrow>
      getFile cf c fid2 =
        Inl (ErrorWith ''No root entry found for locale: '' (Num (uint (cascLocale c))))) \<and>
   (map_of (rootEntries c) fid3 = Some (pre @ (idx3, contentKey) # post) \<and>
    (\<forall>(idx, key) \<in> set pre. idx < length (rootTypes c) \<and>
       \<not> matchesLocale cf (cascLocale c) (rootTypes c ! idx)) \<and>
    idx3 < length (rootTypes c) \<and> matchesLocale cf (cascLocale c) (rootTypes c ! idx3) \<and>
    map_of (encodingKeys c) contentKey = None \<longrightarrow>
      getFile cf c fid3 = Inl (ErrorWith ''No encoding entry found: '' (Str contentKey)))"
proof (intro conjI impI)
  assume "map_of (rootEntries c) fid1 = None"
  then show "getFile cf c fid1 = Inl (ErrorWith ''fileDataID does not exist in root: '' (Num fid1))"
    by (simp add: getFile_def)
next
  assume a: "map_of (rootEntries c) fid2 = Some root2 \<and>
    (\<forall>(idx, key) \<in> set root2. idx < length (rootTypes c) \<and>
       (localeFlags (rootTypes c ! idx) AND cascLocale c = 0 \<or>
        contentFlags (rootTypes c ! idx) AND LowViolence cf \<noteq> 0))"
  then have "\<forall>(idx, key) \<in> set root2. idx < length (rootTypes c) \<and>
       \<not> matchesLocale cf (cascLocale c) (rootTypes c ! idx)"
    by (auto simp: matchesLocale_def)
  then have "selectContentKey cf (cascLocale c) (rootTypes c) root2 = Inr None"
    by (rule selectContentKey_none)
  with a show "getFile cf c fid2 =
        Inl (ErrorWith ''No root entry found for locale: '' (Num (uint (cascLocale c))))"
    by (simp add: getFile_def)
next
  assume a: "map_of (rootEntries c) fid3 = Some (pre @ (idx3, contentKey) # post) \<and>
    (\<forall>(idx, key) \<in> set pre. idx < length (rootTypes c) \<and>
       \<not> matchesLocale cf (cascLocale c) (rootTypes c ! idx)) \<and>
    idx3 < length (rootTypes c) \<and> matchesLocale cf (cascLocale c) (rootTypes c ! idx3) \<and>
    map_of (encodingKeys c) contentKey = None"
  then have "selectContentKey cf (cascLocale c) (rootTypes c) (pre @ (idx3, contentKey) # post)
               = Inr (Some contentKey)"
    by (intro selectContentKey_first) auto
  with a show "getFile cf c fid3 = Inl (ErrorWith ''No encoding entry found: '' (Str contentKey))"
    by (simp add: getFile_def)
qed


theorem getFile_errors_witness:
  "getFile demo_flags demo_casc 4 = Inl (ErrorWith ''fileDataID does not exist in root: '' (Num 4)) \<and>
   getFile demo_flags demo_casc 2 = Inl (ErrorWith ''No root entry found for locale: '' (Num 2)) \<and>
   getFile demo_flags demo_casc 3 = Inl (ErrorWith ''No encoding entry found: '' (Str ''dd''))"
proof -
  note t = getFile_errors [of demo_casc 4 demo_flags 2 "[(1, ''bb''), (2, ''cc'')]" 3 "[]" 0 "''dd''" "[]"]
  have h1: "map_of (rootEntries demo_casc) 4 = None"
    by (simp add: demo_casc_def)
  have h2: "map_of (rootEntries demo_casc) 2 = Some [(1, ''bb''), (2, ''cc'')] \<and>
    (\<forall>(idx, key) \<in> set [(1, ''bb''), (2, ''cc'')]. idx < length (rootTypes demo_casc) \<and>
       (localeFlags (rootTypes demo_casc ! idx) AND cascLocale demo_casc = 0 \<or>
        contentFlags (rootTypes demo_casc ! idx) AND LowViolence demo_flags \<noteq> 0))"
    by (simp add: demo_casc_def demo_flags_def)
  have h3: "map_of (rootEntries demo_casc) 3 = Some ([] @ (0, ''dd'') # []) \<and>
    (\<forall>(idx, key) \<in> set []. idx < length (rootTypes demo_casc) \<and>
       \<not> matchesLocale demo_flags (cascLocale demo_casc) (rootTypes demo_casc ! idx)) \<and>
    0 < length (rootTypes demo_casc) \<and>
    matchesLocale demo_flags (cascLocale demo_casc) (rootTypes demo_casc ! 0) \<and>
    map_of (encodingKeys demo_casc) ''dd'' = None"
    by (simp add: demo_casc_def demo_flags_def matchesLocale_def)
  have u: "uint (cascLocale demo_casc) = 2"
    by (simp add: demo_casc_def)
  from t h1 h2 h3 u show ?thesis by simp
qed

subsection \<open>Valid root entries\<close>

lemma includeEntry_valid:
  "\<forall>idx \<in> set idxs. idx < length rts \<Longrightarrow>
   includeEntry cf loc rts idxs = Inr (\<exists>idx \<in> set idxs. matchesLocale cf loc (rts ! idx))"
  by (induction idxs) auto

lemma validEntries_valid:
  assumes "\<forall>(fid, entry) \<in> set entries. \<forall>(idx, key) \<in> set entry. idx < length rts"
  shows "validEntries cf loc rts entries =
           Inr (map fst (filter (\<lambda>(fid, entry). \<exists>(idx, key) \<in> set entry. matchesLocale cf loc (rts ! idx))
                  entries))"
  using assms
proof (induction entries)
  case Nil
  then show ?case by simp
next
  case (Cons p entries)
  obtain fid entry where p: "p = (fid, entry)" by (cases p)
  from Cons.prems p have "\<forall>idx \<in> set (map fst entry). idx < length rts"
    by auto
  from includeEntry_valid [OF this]
  have inc: "includeEntry cf loc rts (map fst entry) =
               Inr (\<exists>(idx, key) \<in> set entry. matchesLocale cf loc (rts ! idx))"
    by (auto simp: case_prod_beta)
  from Cons.prems have rest: "\<forall>(fid, entry) \<in> set entries. \<forall>(idx, key) \<in> set entry. idx < length rts"
    by simp
  show ?case
    using inc Cons.IH [OF rest] p by simp
qed

text \<open>
  The root parser keeps the root type indices of the entries valid, so the tables of a
  load that started from empty tables meet the hypothesis of the next theorem.
\<close>

lemma set_update_subset: "set (AList.update k v al) \<subseteq> insert (k, v) (set al)"
  by (induction al) auto

lemma setRootEntry_below:
  assumes "rootIndicesBelow n entries" and "idx < n"
  shows "rootIndicesBelow n (setRootEntry fid idx key entries)"
proof (cases "map_of entries fid")
  case None
  then have "setRootEntry fid idx key entries = AList.update fid [(idx, key)] entries"
    by (simp add: setRootEntry_def)
  moreover have "set (AList.update fid [(idx, key)] entries) \<subseteq> insert (fid, [(idx, key)]) (set entries)"
    by (rule set_update_subset)
  ultimately show ?thesis
    using assms unfolding rootIndicesBelow_def by fastforce
next
  case (Some entry)
  then have mem: "(fid, entry) \<in> set entries" by (rule map_of_SomeD)
  from Some have eq: "setRootEntry fid idx key entries =
      AList.update fid (AList.update idx key entry) entries"
    by (simp add: setRootEntry_def)
  have sub1: "set (AList.update fid (AList.update idx key entry) entries)
                \<subseteq> insert (fid, AList.update idx key entry) (set entries)"
    by (rule set_update_subset)
  have sub2: "set (AList.update idx key entry) \<subseteq> insert (idx, key) (set entry)"
    by (rule set_update_subset)
  from assms mem have old: "\<forall>(i, k) \<in> set entry. i < n"
    unfolding rootIndicesBelow_def by auto
  with sub2 assms(2) have new: "\<forall>(i, k) \<in> set (AList.update idx key entry). i < n"
    by auto
  show ?thesis
    unfolding eq rootIndicesBelow_def
  proof (intro ballI, clarify)
    fix f e i k
    assume "(f, e) \<in> set (AList.update fid (AList.update idx key entry) entries)"
      and ik: "(i, k) \<in> set e"
    with sub1 have "(f, e) = (fid, AList.update idx key entry) \<or> (f, e) \<in> set entries"
      by auto
    then show "i < n"
    proof
      assume "(f, e) = (fid, AList.update idx key entry)"
      with new ik show ?thesis by auto
    next
      assume "(f, e) \<in> set entries"
      with assms(1) ik show ?thesis unfolding rootIndicesBelow_def by auto
    qed
  qed
qed

lemma modernKeys_below:
  assumes "modernKeys idx ids entries b = Inr (entries', b')"
    and "rootIndicesBelow n entries" and "idx < n"
  shows "rootIndicesBelow n entries'"
  using assms
proof (induction ids arbitrary: entries b)
  case Nil
  then show ?case by simp
next
  case (Cons fid ids)
  from Cons.prems(1) obtain key b1 where
    rest: "modernKeys idx ids (setRootEntry fid idx key entries) b1 = Inr (entries', b')"
    by (auto simp: Let_def split: sum.splits prod.splits)
  from Cons.IH [OF rest setRootEntry_below [OF Cons.prems(2,3)] Cons.prems(3)]
  show ?case .
qed

lemma classicKeys_below:
  assumes "classicKeys idx ids entries b = Inr (entries', b')"
    and "rootIndicesBelow n entries" and "idx < n"
  shows "rootIndicesBelow n entries'"
  using assms
proof (induction ids arbitrary: entries b)
  case Nil
  then show ?case by simp
next
  case (Cons fid ids)
  from Cons.prems(1) obtain key b2 where
    rest: "classicKeys idx ids (setRootEntry fid idx key entries) b2 = Inr (entries', b')"
    by (auto split: sum.splits prod.splits)
  from Cons.IH [OF rest setRootEntry_below [OF Cons.prems(2,3)] Cons.prems(3)]
  show ?case .
qed

lemma rootIndicesBelow_mono: "rootIndicesBelow n entries \<Longrightarrow> n \<le> m \<Longrightarrow> rootIndicesBelow m entries"
  unfolding rootIndicesBelow_def by fastforce

lemma parseModernBlock_valid:
  assumes "parseModernBlock cf a c b = Inr (c', b')"
    and "rootIndicesBelow (length (rootTypes c)) (rootEntries c)"
  shows "rootIndicesBelow (length (rootTypes c')) (rootEntries c')"
proof -
  from assms(1) obtain ids b4 entries b5 rt where
    keys: "modernKeys (length (rootTypes c)) ids (rootEntries c) b4 = Inr (entries, b5)" and
    c': "c' = c\<lparr>rootEntries := entries, rootTypes := rootTypes c @ [rt]\<rparr>"
    unfolding parseModernBlock_def by (auto split: sum.splits prod.splits if_splits)
  from assms(2) have "rootIndicesBelow (Suc (length (rootTypes c))) (rootEntries c)"
    by (rule rootIndicesBelow_mono) simp
  from modernKeys_below [OF keys this] c' show ?thesis by simp
qed

lemma parseClassicBlock_valid:
  assumes "parseClassicBlock c b = Inr (c', b')"
    and "rootIndicesBelow (length (rootTypes c)) (rootEntries c)"
  shows "rootIndicesBelow (length (rootTypes c')) (rootEntries c')"
proof -
  from assms(1) obtain ids b4 entries rt where
    keys: "classicKeys (length (rootTypes c)) ids (rootEntries c) b4 = Inr (entries, b')" and
    c': "c' = c\<lparr>rootEntries := entries, rootTypes := rootTypes c @ [rt]\<rparr>"
    unfolding parseClassicBlock_def by (auto split: sum.splits prod.splits if_splits)
  from assms(2) have "rootIndicesBelow (Suc (length (rootTypes c))) (rootEntries c)"
    by (rule rootIndicesBelow_mono) simp
  from classicKeys_below [OF keys this] c' show ?thesis by simp
qed

lemma parseModernBlocks_valid:
  "parseModernBlocks cf a c b = Inr c' \<Longrightarrow>
   rootIndicesBelow (length (rootTypes c)) (rootEntries c) \<Longrightarrow>
   rootIndicesBelow (length (rootTypes c')) (rootEntries c')"
proof (induction cf a c b rule: parseModernBlocks.induct)
  case (1 cf a c b)
  show ?case
  proof (cases "remainingBytes b > 0")
    case False
    with "1.prems" show ?thesis by (simp add: parseModernBlocks.simps)
  next
    case True
    from "1.prems"(1) True obtain c1 b1 where
      blk: "parseModernBlock cf a c b = Inr (c1, b1)" and
      rest: "parseModernBlocks cf a c1 b1 = Inr c'"
      by (subst (asm) parseModernBlocks.simps) (auto split: sum.splits prod.splits)
    from parseModernBlock_valid [OF blk "1.prems"(2)]
    have "rootIndicesBelow (length (rootTypes c1)) (rootEntries c1)" .
    with "1.IH" [OF True blk] rest show ?thesis by fastforce
  qed
qed

lemma parseClassicBlocks_valid:
  "parseClassicBlocks c b = Inr c' \<Longrightarrow>
   rootIndicesBelow (length (rootTypes c)) (rootEntries c) \<Longrightarrow>
   rootIndicesBelow (length (rootTypes c')) (rootEntries c')"
proof (induction c b rule: parseClassicBlocks.induct)
  case (1 c b)
  show ?case
  proof (cases "remainingBytes b > 0")
    case False
    with "1.prems" show ?thesis by (simp add: parseClassicBlocks.simps)
  next
    case True
    from "1.prems"(1) True obtain c1 b1 where
      blk: "parseClassicBlock c b = Inr (c1, b1)" and
      rest: "parseClassicBlocks c1 b1 = Inr c'"
      by (subst (asm) parseClassicBlocks.simps) (auto split: sum.splits prod.splits)
    from parseClassicBlock_valid [OF blk "1.prems"(2)]
    have "rootIndicesBelow (length (rootTypes c1)) (rootEntries c1)" .
    with "1.IH" [OF True blk] rest show ?thesis by fastforce
  qed
qed

lemma parseRootFile_valid:
  assumes "parseRootFile blte cf c raw hash = Inr (n, c')"
    and "rootIndicesBelow (length (rootTypes c)) (rootEntries c)"
  shows "rootIndicesBelow (length (rootTypes c')) (rootEntries c')"
proof -
  from assms(1) have "(\<exists>a b. parseModernBlocks cf a c b = Inr c') \<or> (\<exists>b. parseClassicBlocks c b = Inr c')"
    unfolding parseRootFile_def
    by (auto split: sum.splits prod.splits if_splits)
  with assms(2) show ?thesis
    by (auto dest: parseModernBlocks_valid parseClassicBlocks_valid)
qed

text \<open>
  C4: on a loaded root table, whose entries refer to root types that exist,
  \<open>getValidRootEntries\<close> returns exactly the fileDataIDs that have at least one root
  type whose locale flags meet the active locale and whose content flags lack the
  low-violence bit; every other fileDataID is left out.
\<close>

theorem getValidRootEntries_exact:
  assumes "rootIndicesBelow (length (rootTypes c)) (rootEntries c)"
  shows "\<exists>ids. getValidRootEntries cf c = Inr ids \<and>
           set ids = {fid. \<exists>entry idx key. (fid, entry) \<in> set (rootEntries c) \<and> (idx, key) \<in> set entry \<and>
                        localeFlags (rootTypes c ! idx) AND cascLocale c \<noteq> 0 \<and>
                        contentFlags (rootTypes c ! idx) AND LowViolence cf = 0}"
proof -
  let ?ok = "\<lambda>(fid, entry). \<exists>(idx, key) \<in> set entry. matchesLocale cf (cascLocale c) (rootTypes c ! idx)"
  have valid: "\<forall>(fid, entry) \<in> set (rootEntries c). \<forall>(idx, key) \<in> set entry. idx < length (rootTypes c)"
    using assms by (simp add: rootIndicesBelow_def)
  have "getValidRootEntries cf c = Inr (map fst (filter ?ok (rootEntries c)))"
    unfolding getValidRootEntries_def by (rule validEntries_valid [OF valid])
  moreover have "set (map fst (filter ?ok (rootEntries c))) =
      {fid. \<exists>entry idx key. (fid, entry) \<in> set (rootEntries c) \<and> (idx, key) \<in> set entry \<and>
                        localeFlags (rootTypes c ! idx) AND cascLocale c \<noteq> 0 \<and>
                        contentFlags (rootTypes c ! idx) AND LowViolence cf = 0}"
    by (fastforce simp: matchesLocale_def image_iff)
  ultimately show ?thesis by simp
qed

theorem getValidRootEntries_exact_witness:
  "getValidRootEntries demo_flags demo_casc = Inr [1, 3] \<and>
   {fid. \<exists>entry idx key. (fid, entry) \<in> set (rootEntries demo_casc) \<and> (idx, key) \<in> set entry \<and>
        localeFlags (rootTypes demo_casc ! idx) AND cascLocale demo_casc \<noteq> 0 \<and>
        contentFlags (rootTypes demo_casc ! idx) AND LowViolence demo_flags = 0} = {1, 3}"
proof -
  have h: "rootIndicesBelow (length (rootTypes demo_casc)) (rootEntries demo_casc)"
    by (simp add: rootIndicesBelow_def demo_casc_def)
  have v: "getValidRootEntries demo_flags demo_casc = Inr [1, 3]"
    by (simp add: getValidRootEntries_def demo_casc_def demo_flags_def matchesLocale_def)
  from getValidRootEntries_exact [OF h, of demo_flags] v show ?thesis by auto
qed

subsection \<open>What the lookup returns\<close>

text \<open>
  C1 as stated fails: \<open>getFile\<close> of the base class stops at the encoding key. On the
  example tables the file 1 resolves to the encoding key \<open>ee\<close>, while the decoded
  payload of that blob is the two bytes \<open>01 02\<close>.
\<close>

theorem getFile_decoded_counterexample:
  "getFile demo_flags demo_casc 1 = Inr (EncodingKey ''ee'') \<and>
   getFile_spec demo_flags demo_fetch demo_blte demo_casc 1 = Inr (FileData [0x01, 0x02]) \<and>
   getFile demo_flags demo_casc 1 \<noteq> getFile_spec demo_flags demo_fetch demo_blte demo_casc 1"
  by (simp add: getFile_spec_def getFile_def demo_casc_def demo_flags_def demo_fetch_def demo_blte_def
      matchesLocale_def)

text \<open>
  C1, amended: for every fileDataID that resolves through the root and encoding tables,
  \<open>getFile\<close> returns the encoding key of the content key of the first variant that
  matches the locale; fetching and decoding the bytes is left to the caller.
\<close>

theorem getFile_encoding_key:
  assumes "map_of (rootEntries c) fileDataID = Some (pre @ (rootTypeIdx, contentKey) # post)"
    and "\<forall>(idx, key) \<in> set pre. idx < length (rootTypes c) \<and>
           \<not> matchesLocale cf (cascLocale c) (rootTypes c ! idx)"
    and "rootTypeIdx < length (rootTypes c)"
    and "matchesLocale cf (cascLocale c) (rootTypes c ! rootTypeIdx)"
    and "map_of (encodingKeys c) contentKey = Some encodingKey"
  shows "getFile cf c fileDataID = Inr (EncodingKey encodingKey)"
proof -
  have "selectContentKey cf (cascLocale c) (rootTypes c) (pre @ (rootTypeIdx, contentKey) # post)
          = Inr (Some contentKey)"
    using assms(2-4) by (rule selectContentKey_first)
  with assms(1,5) show ?thesis
    by (simp add: getFile_def)
qed

theorem getFile_encoding_key_witness:
  "getFile demo_flags demo_casc 1 = Inr (EncodingKey ''ee'')"
proof -
  have h1: "map_of (rootEntries demo_casc) 1 = Some ([(1, ''bb'')] @ (0, ''aa'') # [])"
    by (simp add: demo_casc_def)
  have h2: "\<forall>(idx, key) \<in> set [(1, ''bb'')]. idx < length (rootTypes demo_casc) \<and>
           \<not> matchesLocale demo_flags (cascLocale demo_casc) (rootTypes demo_casc ! idx)"
    by (simp add: demo_casc_def demo_flags_def matchesLocale_def)
  have h3: "0 < length (rootTypes demo_casc)"
    by (simp add: demo_casc_def)
  have h4: "matchesLocale demo_flags (cascLocale demo_casc) (rootTypes demo_casc ! 0)"
    by (simp add: demo_casc_def demo_flags_def matchesLocale_def)
  have h5: "map_of (encodingKeys demo_casc) ''aa'' = Some ''ee''"
    by (simp add: demo_casc_def)
  show ?thesis
    by (rule getFile_encoding_key [OF h1 h2 h3 h4 h5])
qed


subsection \<open>Name hashes in the modern root layout\<close>

text \<open>
  C5 as stated fails. The example block has one record and the no-name-hash bit set, and
  the header counts are equal (\<open>totalFileCount = namedFileCount = 1\<close>). The last content
  key ends at offset 32; the parse ends at offset 40, the 8 bytes of name hash consumed.
  The file made of the header, the block and the 8 bytes parses to its end. Without
  those 8 bytes the block, and the whole file, fail to parse, at the move over the name
  hashes: the row of the record is already in the table, its root type is not.
\<close>

theorem modern_block_skip_counterexample:
  "endOffset (parseModernBlock demo_flags ((1::nat) \<noteq> 1) demo_empty
      \<lparr>data = demo_block @ demo_hashes, offset = 0\<rparr>) = Inr (12 + 4 * 1 + 16 * 1 + 8 * 1) \<and>
   endOffset (parseModernBlock demo_flags ((1::nat) \<noteq> 1) demo_empty
      \<lparr>data = demo_block @ demo_hashes, offset = 0\<rparr>) \<noteq> Inr (12 + 4 * 1 + 16 * 1) \<and>
   readUInt32 \<lparr>data = demo_block @ demo_hashes, offset = 4\<rparr>
     = Inr (0x10000000, \<lparr>data = demo_block @ demo_hashes, offset = 8\<rparr>) \<and>
   (0x10000000 :: 32 word) AND NoNameHash demo_flags \<noteq> 0 \<and>
   endOffset (parseModernBlock demo_flags ((1::nat) \<noteq> 1) demo_empty
      \<lparr>data = demo_block, offset = 0\<rparr>) = Inl OutOfBounds \<and>
   parseRootFile id_blte demo_flags demo_empty (demo_root_header @ demo_block @ demo_hashes) []
     = Inr (1, demo_empty\<lparr>rootEntries := [(5, [(0, ''49299eae4e3a195953764bb4adb3c91f'')])],
                          rootTypes := [\<lparr>contentFlags = 0x10000000, localeFlags = 0x2\<rparr>]\<rparr>) \<and>
   parseRootFile id_blte demo_flags demo_empty (demo_root_header @ demo_block) []
     = Inl (OutOfBounds,
            demo_empty\<lparr>rootEntries := [(5, [(0, ''49299eae4e3a195953764bb4adb3c91f'')])]\<rparr>)"
  by (simp add: endOffset_def parseRootFile_def id_blte_def ROOT_MAGIC_def parseModernBlock_def
      parseModernBlocks.simps reader_defs remainingBytes_def demo_root_header_def demo_block_def demo_hashes_def
      demo_key_def demo_flags_def demo_empty_def setRootEntry_def newRootEntry_def Let_def
      hex_of_def hex_byte_def hex_digit_def)

text \<open>
  A read that has the bytes it needs succeeds, and so does a block whose bytes are all
  there.
\<close>

lemma readWith_enough:
  assumes "offset b + n \<le> length (data b)"
  shows "readWith n f b = Inr (f (take n (drop (offset b) (data b))), b\<lparr>offset := offset b + n\<rparr>)"
  using assms by (simp add: readWith_def readBytes_def)

lemma readFileDataIDs_enough:
  "offset b + 4 * n \<le> length (data b) \<Longrightarrow>
   \<exists>ids b'. readFileDataIDs n fid b = Inr (ids, b')"
proof (induction n arbitrary: fid b)
  case 0
  show ?case by simp
next
  case (Suc n)
  from Suc.prems have "offset b + 4 \<le> length (data b)" by simp
  then have "\<exists>d. readInt32 b = Inr (d, b\<lparr>offset := offset b + 4\<rparr>)"
    by (simp add: readInt32_def readWith_enough)
  then obtain d where r: "readInt32 b = Inr (d, b\<lparr>offset := offset b + 4\<rparr>)"
    by blast
  let ?b1 = "b\<lparr>offset := offset b + 4\<rparr>"
  from Suc.prems have "offset ?b1 + 4 * n \<le> length (data ?b1)" by simp
  from Suc.IH [OF this, of "fid + d + 1"] obtain ids b' where
    "readFileDataIDs n (fid + d + 1) ?b1 = Inr (ids, b')" by blast
  with r show ?case by (simp add: Let_def)
qed

lemma modernKeys_enough:
  "offset b + 16 * length ids \<le> length (data b) \<Longrightarrow>
   \<exists>entries' b'. modernKeys idx ids entries b = Inr (entries', b')"
proof (induction ids arbitrary: entries b)
  case Nil
  show ?case by simp
next
  case (Cons fid ids)
  from Cons.prems have "offset b + 16 \<le> length (data b)" by simp
  then have "\<exists>key. readContentKey b = Inr (key, b\<lparr>offset := offset b + 16\<rparr>)"
    by (simp add: readContentKey_def readHexString_def readWith_enough)
  then obtain key where r: "readContentKey b = Inr (key, b\<lparr>offset := offset b + 16\<rparr>)"
    by blast
  let ?b1 = "b\<lparr>offset := offset b + 16\<rparr>"
  from Cons.prems have "offset ?b1 + 16 * length ids \<le> length (data ?b1)" by simp
  from Cons.IH [OF this, of "setRootEntry fid idx key entries"] obtain entries' b' where
    "modernKeys idx ids (setRootEntry fid idx key entries) ?b1 = Inr (entries', b')" by blast
  with r show ?case by (simp add: Let_def)
qed

lemma parseModernBlock_enough:
  assumes r1: "readUInt32 b = Inr (n, b1)"
    and r2: "readUInt32 b1 = Inr (cFlags, b2)"
    and r3: "readUInt32 b2 = Inr (lFlags, b3)"
    and len: "offset b + 12 + 20 * n +
                (if a \<and> (of_nat cFlags :: 32 word) AND NoNameHash cf \<noteq> 0 then 0 else 8 * n)
              \<le> length (data b)"
  shows "\<exists>c' b'. parseModernBlock cf a c b = Inr (c', b')"
proof -
  note s1 = readUInt32_step [OF r1] and s2 = readUInt32_step [OF r2]
    and s3 = readUInt32_step [OF r3]
  from s1 s2 s3 have b3: "data b3 = data b" "offset b3 = offset b + 12" by simp_all
  from len b3 have "offset b3 + 4 * n \<le> length (data b3)" by simp
  from readFileDataIDs_enough [OF this] obtain ids b4 where
    r4: "readFileDataIDs n 0 b3 = Inr (ids, b4)" by blast
  from readFileDataIDs_step [OF r4] b3
  have b4: "data b4 = data b" "offset b4 = offset b + 12 + 4 * n" "length ids = n" by simp_all
  from len b4 have "offset b4 + 16 * length ids \<le> length (data b4)" by simp
  from modernKeys_enough [OF this] obtain entries b5 where
    r5: "modernKeys (length (rootTypes c)) ids (rootEntries c) b4 = Inr (entries, b5)" by blast
  from modernKeys_step [OF r5] b4
  have b5: "data b5 = data b" "offset b5 = offset b + 12 + 20 * n" by simp_all
  have "\<exists>b6. (if \<not> (a \<and> (of_nat cFlags :: 32 word) AND NoNameHash cf \<noteq> 0)
               then move (8 * int n) b5 else Inr b5) = Inr b6"
    using len b5 by (auto simp: move_def Let_def split: if_splits)
  then obtain b6 where
    r6: "(if \<not> (a \<and> (of_nat cFlags :: 32 word) AND NoNameHash cf \<noteq> 0)
          then move (8 * int n) b5 else Inr b5) = Inr b6" by blast
  from r1 r2 r3 r4 r5 r6 show ?thesis
    unfolding parseModernBlock_def by simp
qed

text \<open>Every block that parses pushes one root type.\<close>

lemma parseModernBlock_types:
  assumes "parseModernBlock cf a c b = Inr (c', b')"
  shows "length (rootTypes c') = length (rootTypes c) + 1"
  using assms unfolding parseModernBlock_def
  by (auto split: sum.splits prod.splits if_splits)

lemma parseModernBlocks_types:
  "parseModernBlocks cf a c b = Inr c' \<Longrightarrow>
   length (rootTypes c) \<le> length (rootTypes c') \<and>
   (0 < remainingBytes b \<longrightarrow> length (rootTypes c) < length (rootTypes c'))"
proof (induction cf a c b rule: parseModernBlocks.induct)
  case (1 cf a c b)
  show ?case
  proof (cases "remainingBytes b > 0")
    case False
    with "1.prems" show ?thesis by (simp add: parseModernBlocks.simps)
  next
    case True
    from "1.prems" True obtain c1 b1 where
      blk: "parseModernBlock cf a c b = Inr (c1, b1)" and
      rest: "parseModernBlocks cf a c1 b1 = Inr c'"
      by (subst (asm) parseModernBlocks.simps) (auto split: sum.splits prod.splits)
    have "length (rootTypes c1) \<le> length (rootTypes c')"
      using "1.IH" [OF True blk] rest by fastforce
    with parseModernBlock_types [OF blk] show ?thesis by simp
  qed
qed

text \<open>
  C5, amended. For a file with the modern magic and the header counts \<open>totalFileCount\<close>
  and \<open>namedFileCount\<close>:

    \<^item> \<open>parseRootFile\<close> is the loop of blocks run with
      \<open>allowNamelessFiles = (totalFileCount \<noteq> namedFileCount)\<close>, from the offset after the
      header;

    \<^item> every pass of that loop that parses a block of \<open>numRecords\<close> records stops right
      after the last content key of the block when the no-name-hash bit of the block is
      set and the two counts differ, and \<open>8 * numRecords\<close> bytes further in every other
      case: with equal counts the name hashes are read over, the bit set or not;

    \<^item> seen from outside: the file parses to exactly one more root type if and only if
      it ends at the offset the second item gives for its first block.
\<close>

theorem modern_root_name_hashes:
  fixes c tables :: "'a casc_scheme"
  assumes "BLTEReader blte raw hash = Inr root"
    and "readUInt32 root = Inr (ROOT_MAGIC, r1)"
    and "readUInt32 r1 = Inr (totalFileCount, r2)"
    and "readUInt32 r2 = Inr (namedFileCount, r3)"
  shows "parseRootFile blte cf c raw hash =
           (case parseModernBlocks cf (totalFileCount \<noteq> namedFileCount) c r3 of
              Inl failed \<Rightarrow> Inl failed
            | Inr c' \<Rightarrow> Inr (length (rootEntries c'), c')) \<and>
         (parseModernBlock cf (totalFileCount \<noteq> namedFileCount) tables reader = Inr (tables', reader') \<and>
          readUInt32 reader = Inr (numRecords, afterCount) \<and> readUInt32 afterCount = Inr (cFlags, afterFlags) \<longrightarrow>
          offset reader' = (offset reader + 12 + 4 * numRecords + 16 * numRecords) +
            (if totalFileCount \<noteq> namedFileCount \<and> (of_nat cFlags :: 32 word) AND NoNameHash cf \<noteq> 0
             then 0 else 8 * numRecords)) \<and>
         (readUInt32 r3 = Inr (firstRecords, afterFirstCount) \<and> readUInt32 afterFirstCount = Inr (firstFlags, afterFirstFlags) \<longrightarrow>
          ((\<exists>size c'. parseRootFile blte cf c raw hash = Inr (size, c') \<and>
                      length (rootTypes c') = length (rootTypes c) + 1) \<longleftrightarrow>
           length (data root) = (offset r3 + 12 + 4 * firstRecords + 16 * firstRecords) +
             (if totalFileCount \<noteq> namedFileCount \<and> (of_nat firstFlags :: 32 word) AND NoNameHash cf \<noteq> 0
              then 0 else 8 * firstRecords)))"
proof -
  let ?a = "totalFileCount \<noteq> namedFileCount"
  have link: "parseRootFile blte cf c raw hash =
           (case parseModernBlocks cf ?a c r3 of
              Inl failed \<Rightarrow> Inl failed
            | Inr c' \<Rightarrow> Inr (length (rootEntries c'), c'))"
    unfolding parseRootFile_def using assms by simp
  have blocks: "offset reader' = (offset reader + 12 + 4 * numRecords + 16 * numRecords) +
              (if ?a \<and> (of_nat cFlags :: 32 word) AND NoNameHash cf \<noteq> 0
               then 0 else 8 * numRecords)"
    if h: "parseModernBlock cf ?a tables reader = Inr (tables', reader') \<and>
           readUInt32 reader = Inr (numRecords, afterCount) \<and> readUInt32 afterCount = Inr (cFlags, afterFlags)"
  proof -
    from h have blk: "parseModernBlock cf ?a tables reader = Inr (tables', reader')" by simp
    from parseModernBlock_offset [OF blk] obtain n fl x y where
      r: "readUInt32 reader = Inr (n, x)" "readUInt32 x = Inr (fl, y)" and
      o: "offset reader' = offset reader + 12 + 20 * n +
            (if ?a \<and> (of_nat fl :: 32 word) AND NoNameHash cf \<noteq> 0 then 0 else 8 * n)"
      by blast
    from r h have "n = numRecords" "fl = cFlags" by simp_all
    with o show ?thesis by simp
  qed
  have first: "(\<exists>size c'. parseRootFile blte cf c raw hash = Inr (size, c') \<and>
                     length (rootTypes c') = length (rootTypes c) + 1) \<longleftrightarrow>
          length (data root) = (offset r3 + 12 + 4 * firstRecords + 16 * firstRecords) +
             (if ?a \<and> (of_nat firstFlags :: 32 word) AND NoNameHash cf \<noteq> 0
              then 0 else 8 * firstRecords)"
    (is "?one \<longleftrightarrow> length (data root) = ?end")
    if h: "readUInt32 r3 = Inr (firstRecords, afterFirstCount) \<and> readUInt32 afterFirstCount = Inr (firstFlags, afterFirstFlags)"
  proof
    from h have r1: "readUInt32 r3 = Inr (firstRecords, afterFirstCount)"
      and r2: "readUInt32 afterFirstCount = Inr (firstFlags, afterFirstFlags)" by simp_all
    have d3: "data r3 = data root"
      using readUInt32_step [OF assms(2)] readUInt32_step [OF assms(3)]
        readUInt32_step [OF assms(4)] by simp
    from readUInt32_step [OF r1] d3 have pos: "0 < remainingBytes r3"
      by (simp add: remainingBytes_def)
    {
      assume ?one
      then obtain size c' where
        p: "parseRootFile blte cf c raw hash = Inr (size, c')" and
        one: "length (rootTypes c') = length (rootTypes c) + 1" by blast
      from p link have loop: "parseModernBlocks cf ?a c r3 = Inr c'"
        by (auto split: sum.splits)
      from loop pos obtain tables' reader' where
        blk: "parseModernBlock cf ?a c r3 = Inr (tables', reader')" and
        rest: "parseModernBlocks cf ?a tables' reader' = Inr c'"
        by (subst (asm) parseModernBlocks.simps) (auto split: sum.splits prod.splits)
      from parseModernBlock_offset [OF blk] obtain n fl x y where
        r: "readUInt32 r3 = Inr (n, x)" "readUInt32 x = Inr (fl, y)" and
        db: "data reader' = data r3" and le: "offset reader' \<le> length (data r3)" and
        o: "offset reader' = offset r3 + 12 + 20 * n +
              (if ?a \<and> (of_nat fl :: 32 word) AND NoNameHash cf \<noteq> 0 then 0 else 8 * n)"
        by blast
      from r r1 r2 have eq: "n = firstRecords" "fl = firstFlags" by simp_all
      from parseModernBlocks_types [OF rest] parseModernBlock_types [OF blk] one
      have "\<not> 0 < remainingBytes reader'" by auto
      with db le have "offset reader' = length (data r3)"
        by (simp add: remainingBytes_def)
      with o eq d3 show "length (data root) = ?end" by simp
    }
    {
      assume len: "length (data root) = ?end"
      have "\<exists>lFlags b3. readUInt32 afterFirstFlags = Inr (lFlags, b3)"
      proof -
        from readUInt32_step [OF r1] readUInt32_step [OF r2] d3 len
        have "offset afterFirstFlags + 4 \<le> length (data afterFirstFlags)" by simp
        then show ?thesis
          by (simp add: readUInt32_def readWith_enough)
      qed
      then obtain lFlags b3 where r3': "readUInt32 afterFirstFlags = Inr (lFlags, b3)" by blast
      from len d3 have "offset r3 + 12 + 20 * firstRecords +
                (if ?a \<and> (of_nat firstFlags :: 32 word) AND NoNameHash cf \<noteq> 0
                 then 0 else 8 * firstRecords)
              \<le> length (data r3)" by simp
      from parseModernBlock_enough [OF r1 r2 r3' this, of c] obtain tables' reader' where
        blk: "parseModernBlock cf ?a c r3 = Inr (tables', reader')" by blast
      from parseModernBlock_offset [OF blk] obtain n fl x y where
        r: "readUInt32 r3 = Inr (n, x)" "readUInt32 x = Inr (fl, y)" and
        db: "data reader' = data r3" and
        o: "offset reader' = offset r3 + 12 + 20 * n +
              (if ?a \<and> (of_nat fl :: 32 word) AND NoNameHash cf \<noteq> 0 then 0 else 8 * n)"
        by blast
      from r r1 r2 have eq: "n = firstRecords" "fl = firstFlags" by simp_all
      from o eq len d3 db have "remainingBytes reader' = 0"
        by (simp add: remainingBytes_def)
      then have "parseModernBlocks cf ?a tables' reader' = Inr tables'"
        by (subst parseModernBlocks.simps) simp
      with blk pos have "parseModernBlocks cf ?a c r3 = Inr tables'"
        by (subst parseModernBlocks.simps) simp
      with link have "parseRootFile blte cf c raw hash = Inr (length (rootEntries tables'), tables')"
        by simp
      with parseModernBlock_types [OF blk] show ?one by blast
    }
  qed
  from link blocks first show ?thesis by blast
qed

theorem modern_root_name_hashes_witness:
  "(\<exists>c1 b'. parseModernBlock demo_flags ((1::nat) \<noteq> 1) demo_empty
              \<lparr>data = demo_root_header @ demo_block @ demo_hashes, offset = 12\<rparr> = Inr (c1, b') \<and>
            offset b' = (12 + 12 + 4 * 1 + 16 * 1) + 8 * 1) \<and>
   (\<exists>size c'. parseRootFile id_blte demo_flags demo_empty
                (demo_root_header @ demo_block @ demo_hashes) [] = Inr (size, c') \<and>
              length (rootTypes c') = length (rootTypes demo_empty) + 1) \<and>
   (\<exists>size c'. parseRootFile id_blte demo_flags demo_empty
                (demo_root_header_nameless @ demo_block) [] = Inr (size, c') \<and>
              length (rootTypes c') = length (rootTypes demo_empty) + 1) \<and>
   (\<nexists>size c'. parseRootFile id_blte demo_flags demo_empty
                (demo_root_header @ demo_block) [] = Inr (size, c') \<and>
              length (rootTypes c') = length (rootTypes demo_empty) + 1)"
proof -
  let ?A = "demo_root_header @ demo_block @ demo_hashes"
  let ?B = "demo_root_header_nameless @ demo_block"
  let ?C = "demo_root_header @ demo_block"
  have bit: "(of_nat 0x10000000 :: 32 word) AND NoNameHash demo_flags \<noteq> 0"
    by (simp add: demo_flags_def)
  have reads: "BLTEReader id_blte T [] = Inr \<lparr>data = T, offset = 0\<rparr>" for T
    by (simp add: BLTEReader_def id_blte_def)
  have hA: "readUInt32 \<lparr>data = ?A, offset = 0\<rparr> = Inr (ROOT_MAGIC, \<lparr>data = ?A, offset = 4\<rparr>)"
      "readUInt32 \<lparr>data = ?A, offset = 4\<rparr> = Inr (1, \<lparr>data = ?A, offset = 8\<rparr>)"
      "readUInt32 \<lparr>data = ?A, offset = 8\<rparr> = Inr (1, \<lparr>data = ?A, offset = 12\<rparr>)"
      "readUInt32 \<lparr>data = ?A, offset = 12\<rparr> = Inr (1, \<lparr>data = ?A, offset = 16\<rparr>)"
      "readUInt32 \<lparr>data = ?A, offset = 16\<rparr> = Inr (0x10000000, \<lparr>data = ?A, offset = 20\<rparr>)"
    by (simp_all add: reader_defs ROOT_MAGIC_def demo_root_header_def demo_block_def)
  have hB: "readUInt32 \<lparr>data = ?B, offset = 0\<rparr> = Inr (ROOT_MAGIC, \<lparr>data = ?B, offset = 4\<rparr>)"
      "readUInt32 \<lparr>data = ?B, offset = 4\<rparr> = Inr (2, \<lparr>data = ?B, offset = 8\<rparr>)"
      "readUInt32 \<lparr>data = ?B, offset = 8\<rparr> = Inr (1, \<lparr>data = ?B, offset = 12\<rparr>)"
      "readUInt32 \<lparr>data = ?B, offset = 12\<rparr> = Inr (1, \<lparr>data = ?B, offset = 16\<rparr>)"
      "readUInt32 \<lparr>data = ?B, offset = 16\<rparr> = Inr (0x10000000, \<lparr>data = ?B, offset = 20\<rparr>)"
    by (simp_all add: reader_defs ROOT_MAGIC_def demo_root_header_nameless_def demo_block_def)
  have hC: "readUInt32 \<lparr>data = ?C, offset = 0\<rparr> = Inr (ROOT_MAGIC, \<lparr>data = ?C, offset = 4\<rparr>)"
      "readUInt32 \<lparr>data = ?C, offset = 4\<rparr> = Inr (1, \<lparr>data = ?C, offset = 8\<rparr>)"
      "readUInt32 \<lparr>data = ?C, offset = 8\<rparr> = Inr (1, \<lparr>data = ?C, offset = 12\<rparr>)"
      "readUInt32 \<lparr>data = ?C, offset = 12\<rparr> = Inr (1, \<lparr>data = ?C, offset = 16\<rparr>)"
      "readUInt32 \<lparr>data = ?C, offset = 16\<rparr> = Inr (0x10000000, \<lparr>data = ?C, offset = 20\<rparr>)"
    by (simp_all add: reader_defs ROOT_MAGIC_def demo_root_header_def demo_block_def)
  have "\<exists>c1 b'. parseModernBlock demo_flags ((1::nat) \<noteq> 1) demo_empty
                \<lparr>data = ?A, offset = 12\<rparr> = Inr (c1, b')"
    by (simp add: parseModernBlock_def reader_defs demo_root_header_def demo_block_def demo_hashes_def
        demo_key_def demo_flags_def demo_empty_def Let_def)
  then obtain c1 b' where blk: "parseModernBlock demo_flags ((1::nat) \<noteq> 1) demo_empty
                \<lparr>data = ?A, offset = 12\<rparr> = Inr (c1, b')"
    by blast
  have lens: "length ?A = (12 + 12 + 4 * 1 + 16 * 1) + 8 * 1" "length ?B = 12 + 12 + 4 * 1 + 16 * 1"
    "length ?C \<noteq> (12 + 12 + 4 * 1 + 16 * 1) + 8 * 1"
    by (simp_all add: demo_root_header_def demo_root_header_nameless_def demo_block_def
        demo_hashes_def demo_key_def)
  note tA = modern_root_name_hashes [OF reads hA(1) hA(2) hA(3),
      where cf = demo_flags and c = demo_empty and tables = demo_empty
        and reader = "\<lparr>data = ?A, offset = 12\<rparr>" and tables' = c1 and reader' = b'
        and numRecords = 1 and afterCount = "\<lparr>data = ?A, offset = 16\<rparr>"
        and cFlags = "0x10000000" and afterFlags = "\<lparr>data = ?A, offset = 20\<rparr>"
        and firstRecords = 1 and afterFirstCount = "\<lparr>data = ?A, offset = 16\<rparr>"
        and firstFlags = "0x10000000" and afterFirstFlags = "\<lparr>data = ?A, offset = 20\<rparr>"]
   and tB = modern_root_name_hashes [OF reads hB(1) hB(2) hB(3),
      where cf = demo_flags and c = demo_empty and firstRecords = 1
        and afterFirstCount = "\<lparr>data = ?B, offset = 16\<rparr>" and firstFlags = "0x10000000"
        and afterFirstFlags = "\<lparr>data = ?B, offset = 20\<rparr>"]
   and tC = modern_root_name_hashes [OF reads hC(1) hC(2) hC(3),
      where cf = demo_flags and c = demo_empty and firstRecords = 1
        and afterFirstCount = "\<lparr>data = ?C, offset = 16\<rparr>" and firstFlags = "0x10000000"
        and afterFirstFlags = "\<lparr>data = ?C, offset = 20\<rparr>"]
  from blk hA(4,5) tA [THEN conjunct2, THEN conjunct1] have "offset b' = (12 + 12 + 4 * 1 + 16 * 1) + 8 * 1"
    by simp
  with blk have c1: "\<exists>c1 b'. parseModernBlock demo_flags ((1::nat) \<noteq> 1) demo_empty
              \<lparr>data = ?A, offset = 12\<rparr> = Inr (c1, b') \<and>
            offset b' = (12 + 12 + 4 * 1 + 16 * 1) + 8 * 1"
    by blast
  from hA(4,5) lens(1) tA [THEN conjunct2, THEN conjunct2] have c2: "\<exists>size c'. parseRootFile id_blte demo_flags demo_empty ?A [] = Inr (size, c') \<and>
              length (rootTypes c') = length (rootTypes demo_empty) + 1"
    by simp
  from hB(4,5) lens(2) bit tB [THEN conjunct2, THEN conjunct2] have c3: "\<exists>size c'. parseRootFile id_blte demo_flags demo_empty ?B [] = Inr (size, c') \<and>
              length (rootTypes c') = length (rootTypes demo_empty) + 1"
    by simp
  from hC(4,5) lens(3) tC [THEN conjunct2, THEN conjunct2] have c4: "\<nexists>size c'. parseRootFile id_blte demo_flags demo_empty ?C [] = Inr (size, c') \<and>
              length (rootTypes c') = length (rootTypes demo_empty) + 1"
    by simp
  from c1 c2 c3 c4 show ?thesis by blast
qed

text \<open>The whole example file parses to one entry of root type 0.\<close>

lemma demo_root_parse:
  "parseRootFile id_blte demo_flags demo_empty (demo_root_header @ demo_block @ demo_hashes) []
     = Inr (1, demo_empty\<lparr>rootEntries := [(5, [(0, ''49299eae4e3a195953764bb4adb3c91f'')])],
                          rootTypes := [\<lparr>contentFlags = 0x10000000, localeFlags = 0x2\<rparr>]\<rparr>)"
  by (simp add: parseRootFile_def id_blte_def ROOT_MAGIC_def parseModernBlock_def
      parseModernBlocks.simps reader_defs remainingBytes_def
      demo_root_header_def demo_block_def demo_hashes_def
      demo_key_def demo_flags_def demo_empty_def setRootEntry_def newRootEntry_def Let_def
      hex_of_def hex_byte_def hex_digit_def)


subsection \<open>The encoding table\<close>

lemma length_be_bytes [simp]: "length (be_bytes n v) = n"
  by (induction n arbitrary: v) auto

lemma be_nat_be_bytes: "v < 256 ^ n \<Longrightarrow> be_nat (be_bytes n v) = v"
proof (induction n arbitrary: v)
  case 0
  then show ?case by (simp add: be_nat_def)
next
  case (Suc n)
  from Suc.prems have "v div 256 < 256 ^ n"
    by (simp add: less_mult_imp_div_less mult.commute)
  from Suc.IH [OF this] have "le_nat (rev (be_bytes n (v div 256))) = v div 256"
    by (simp add: be_nat_def)
  then show ?case
    by (simp add: be_nat_def unat_of_nat)
qed

lemma readWith_seg:
  assumes "data b = pre @ xs @ post" and "offset b = length pre" and "length xs = n"
  shows "readWith n f b = Inr (f xs, b\<lparr>offset := length pre + n\<rparr>)"
  using assms by (simp add: readWith_def readBytes_def)

lemma move_seg:
  assumes "data b = pre @ xs @ post" and "offset b = length pre" and "int (length xs) = n"
  shows "move n b = Inr (b\<lparr>offset := length pre + length xs\<rparr>)"
  using assms by (auto simp: move_def Let_def)

lemma parseEncodingEntry_entry:
  assumes d: "data b = pre @ ([of_nat k] @ be_bytes 5 sz @ cKey @ eKey @ others) @ post"
    and o: "offset b = length pre"
    and k: "0 < k" "k < 256" and sz: "sz < 2 ^ 40"
    and others: "length others = length eKey * (k - 1)"
  shows "parseEncodingEntry (length cKey) (length eKey) c b =
           Inr (Some (c\<lparr>encodingSizes := AList.update (hex_of cKey) sz (encodingSizes c),
                        encodingKeys := AList.update (hex_of cKey) (hex_of eKey) (encodingKeys c)\<rparr>),
                b\<lparr>offset := length pre + (6 + length cKey + length eKey + length others)\<rparr>)"
proof -
  have r1: "readUInt8 b = Inr (k, b\<lparr>offset := length pre + 1\<rparr>)"
  proof -
    have "readWith 1 le_nat b = Inr (le_nat [of_nat k :: byte], b\<lparr>offset := length pre + 1\<rparr>)"
      by (rule readWith_seg [where post = "be_bytes 5 sz @ cKey @ eKey @ others @ post"])
         (simp_all add: d o)
    with k show ?thesis by (simp add: readUInt8_def unat_of_nat)
  qed
  let ?b1 = "b\<lparr>offset := length pre + 1\<rparr>"
  have r2: "readInt40BE ?b1 = Inr (sz, b\<lparr>offset := length pre + 6\<rparr>)"
  proof -
    have "readWith 5 be_nat ?b1 =
            Inr (be_nat (be_bytes 5 sz), ?b1\<lparr>offset := length (pre @ [of_nat k]) + 5\<rparr>)"
      by (rule readWith_seg [where post = "cKey @ eKey @ others @ post"]) (simp_all add: d o)
    moreover have "be_nat (be_bytes 5 sz) = sz"
      using sz by (intro be_nat_be_bytes) simp
    ultimately show ?thesis by (simp add: readInt40BE_def)
  qed
  let ?b2 = "b\<lparr>offset := length pre + 6\<rparr>"
  have r3: "readHexString (length cKey) ?b2 =
              Inr (hex_of cKey, b\<lparr>offset := length pre + 6 + length cKey\<rparr>)"
  proof -
    have "readWith (length cKey) hex_of ?b2 =
            Inr (hex_of cKey, ?b2\<lparr>offset := length (pre @ [of_nat k] @ be_bytes 5 sz) + length cKey\<rparr>)"
      by (rule readWith_seg [where post = "eKey @ others @ post"]) (simp_all add: d o)
    then show ?thesis by (simp add: readHexString_def)
  qed
  let ?b3 = "b\<lparr>offset := length pre + 6 + length cKey\<rparr>"
  have r4: "readHexString (length eKey) ?b3 =
              Inr (hex_of eKey, b\<lparr>offset := length pre + 6 + length cKey + length eKey\<rparr>)"
  proof -
    have "readWith (length eKey) hex_of ?b3 =
            Inr (hex_of eKey,
                 ?b3\<lparr>offset := length (pre @ [of_nat k] @ be_bytes 5 sz @ cKey) + length eKey\<rparr>)"
      by (rule readWith_seg [where post = "others @ post"]) (simp_all add: d o)
    then show ?thesis by (simp add: readHexString_def)
  qed
  let ?b4 = "b\<lparr>offset := length pre + 6 + length cKey + length eKey\<rparr>"
  have r5: "move (int (length eKey) * (int k - 1)) ?b4 =
              Inr (b\<lparr>offset := length pre + (6 + length cKey + length eKey + length others)\<rparr>)"
  proof -
    have "int (length others) = int (length eKey) * (int k - 1)"
      using others k by (simp add: of_nat_diff)
    then have "move (int (length eKey) * (int k - 1)) ?b4 =
            Inr (?b4\<lparr>offset := length (pre @ [of_nat k] @ be_bytes 5 sz @ cKey @ eKey) + length others\<rparr>)"
      by (intro move_seg [where post = post]) (simp_all add: d o)
    then show ?thesis by (simp add: add.assoc)
  qed
  from k r1 r2 r3 r4 r5 show ?thesis
    unfolding parseEncodingEntry_def by simp
qed

lemma parseEncodingEntry_break:
  assumes "data b = pre @ 0 # post" and "offset b = length pre"
  shows "parseEncodingEntry hc he c b = Inr (None, b\<lparr>offset := length pre + 1\<rparr>)"
proof -
  have "readWith 1 le_nat b = Inr (le_nat [0 :: byte], b\<lparr>offset := length pre + 1\<rparr>)"
    by (rule readWith_seg [where post = post]) (simp_all add: assms)
  then show ?thesis
    by (simp add: parseEncodingEntry_def readUInt8_def)
qed

lemma parseEncodingPage_one_entry:
  assumes d: "data b = pre @ ([of_nat k] @ be_bytes 5 sz @ cKey @ eKey @ others) @ 0 # post"
    and o: "offset b = length pre"
    and k: "0 < k" "k < 256" and sz: "sz < 2 ^ 40"
    and others: "length others = length eKey * (k - 1)"
    and lim: "offset b < limit"
  shows "\<exists>b'. parseEncodingPage limit (length cKey) (length eKey) c b =
           Inr (c\<lparr>encodingSizes := AList.update (hex_of cKey) sz (encodingSizes c),
                  encodingKeys := AList.update (hex_of cKey) (hex_of eKey) (encodingKeys c)\<rparr>, b')"
proof -
  let ?L = "6 + length cKey + length eKey + length others"
  let ?b1 = "b\<lparr>offset := length pre + ?L\<rparr>"
  let ?c' = "c\<lparr>encodingSizes := AList.update (hex_of cKey) sz (encodingSizes c),
               encodingKeys := AList.update (hex_of cKey) (hex_of eKey) (encodingKeys c)\<rparr>"
  have e: "parseEncodingEntry (length cKey) (length eKey) c b = Inr (Some ?c', ?b1)"
    by (rule parseEncodingEntry_entry [OF d o k sz others])
  have first: "parseEncodingPage limit (length cKey) (length eKey) c b =
                 parseEncodingPage limit (length cKey) (length eKey) ?c' ?b1"
    using lim e by (subst parseEncodingPage.simps) simp
  have d1: "data ?b1 = (pre @ [of_nat k] @ be_bytes 5 sz @ cKey @ eKey @ others) @ 0 # post"
    by (simp add: d)
  have o1: "offset ?b1 = length (pre @ [of_nat k] @ be_bytes 5 sz @ cKey @ eKey @ others)"
    by simp
  have brk: "parseEncodingEntry (length cKey) (length eKey) ?c' ?b1 =
               Inr (None, ?b1\<lparr>offset := length (pre @ [of_nat k] @ be_bytes 5 sz @ cKey @ eKey @ others) + 1\<rparr>)"
    by (rule parseEncodingEntry_break [OF d1 o1])
  have "\<exists>b'. parseEncodingPage limit (length cKey) (length eKey) ?c' ?b1 = Inr (?c', b')"
  proof (cases "offset ?b1 < limit")
    case True
    with brk show ?thesis
      by (subst parseEncodingPage.simps) simp
  next
    case False
    then show ?thesis
      by (subst parseEncodingPage.simps) simp
  qed
  with first show ?thesis by simp
qed

lemma readWith_at:
  assumes "T = pre @ xs @ post" and "length pre = k" and "length xs = n"
  shows "readWith n f \<lparr>data = T, offset = k\<rparr> = Inr (f xs, \<lparr>data = T, offset = k + n\<rparr>)"
  using assms by (simp add: readWith_def readBytes_def)

lemma move_at:
  assumes "T = pre @ xs @ post" and "length pre = k" and "int (length xs) = n"
  shows "move n \<lparr>data = T, offset = k\<rparr> = Inr \<lparr>data = T, offset = k + length xs\<rparr>"
  using assms by (auto simp: move_def Let_def)

lemma parseEncodingFile_header:
  assumes T: "T = encodingHeader version hc he kb eps n epc unk S @ specBlock @ pageIndex @ pages"
    and blte: "blte raw hash = Inr T"
    and eps: "length eps = 2" and epc: "length epc = 4"
    and hc: "hc < 256" and he: "he < 256" and kb: "kb < 2 ^ 16" and n: "n < 2 ^ 31"
    and S: "length specBlock = S" "S < 2 ^ 31"
    and idx: "length pageIndex = n * (hc + 16)"
  shows "parseEncodingFile blte c raw hash =
           (case parseEncodingPages n 0 (22 + S + n * (hc + 16)) (kb * 1024) hc he c
                   \<lparr>data = T, offset = 22 + S + n * (hc + 16)\<rparr> of
              Inl e \<Rightarrow> Inl e
            | Inr (c', e11) \<Rightarrow> Inr c')"
proof -
  define m :: "byte list" where "m = [0x45, 0x4E]"
  define kbb where "kbb = be_bytes 2 kb"
  define pc where "pc = be_bytes 4 n"
  define sb where "sb = be_bytes 4 S"
  define tl where "tl = specBlock @ pageIndex @ pages"
  have T': "T = m @ [version] @ [of_nat hc] @ [of_nat he] @ kbb @ eps @ pc @ epc @ [unk] @ sb @ tl"
    by (simp add: T encodingHeader_def m_def kbb_def pc_def sb_def tl_def)
  have len: "length m = 2" "length kbb = 2" "length pc = 4" "length sb = 4"
    by (simp_all add: m_def kbb_def pc_def sb_def)
  have r0: "BLTEReader blte raw hash = Inr \<lparr>data = T, offset = 0\<rparr>"
    by (simp add: BLTEReader_def blte)
  have r1: "readUInt16 \<lparr>data = T, offset = 0\<rparr> = Inr (ENC_MAGIC, \<lparr>data = T, offset = 2\<rparr>)"
    using readWith_at [of T "[]" m _ 0 2 le_nat]
    by (simp add: T' readUInt16_def ENC_MAGIC_def) (simp add: m_def)
  have r2: "move 1 \<lparr>data = T, offset = 2\<rparr> = Inr \<lparr>data = T, offset = 3\<rparr>"
    using move_at [of T m "[version]" _ 2 1] by (simp add: T' len)
  have r3: "readUInt8 \<lparr>data = T, offset = 3\<rparr> = Inr (hc, \<lparr>data = T, offset = 4\<rparr>)"
    using readWith_at [of T "m @ [version]" "[of_nat hc]" _ 3 1 le_nat] hc
    by (simp add: T' len readUInt8_def unat_of_nat)
  have r4: "readUInt8 \<lparr>data = T, offset = 4\<rparr> = Inr (he, \<lparr>data = T, offset = 5\<rparr>)"
    using readWith_at [of T "m @ [version] @ [of_nat hc]" "[of_nat he]" _ 4 1 le_nat] he
    by (simp add: T' len readUInt8_def unat_of_nat)
  have r5: "readInt16BE \<lparr>data = T, offset = 5\<rparr> = Inr (kb, \<lparr>data = T, offset = 7\<rparr>)"
    using readWith_at [of T "m @ [version] @ [of_nat hc] @ [of_nat he]" kbb _ 5 2 be_nat]
      be_nat_be_bytes [of kb 2] kb
    by (simp add: T' len readInt16BE_def kbb_def)
  have r6: "move 2 \<lparr>data = T, offset = 7\<rparr> = Inr \<lparr>data = T, offset = 9\<rparr>"
    using move_at [of T "m @ [version] @ [of_nat hc] @ [of_nat he] @ kbb" eps _ 7 2]
    by (simp add: T' len eps)
  have r7: "readInt32BE \<lparr>data = T, offset = 9\<rparr> = Inr (int n, \<lparr>data = T, offset = 13\<rparr>)"
    using readWith_at [of T "m @ [version] @ [of_nat hc] @ [of_nat he] @ kbb @ eps" pc _ 9 4
        "\<lambda>bs. signed_of 32 (be_nat bs)"]
      be_nat_be_bytes [of n 4] n
    by (simp add: T' len eps readInt32BE_def pc_def signed_of_def)
  have r8: "move (4 + 1) \<lparr>data = T, offset = 13\<rparr> = Inr \<lparr>data = T, offset = 18\<rparr>"
    using move_at [of T "m @ [version] @ [of_nat hc] @ [of_nat he] @ kbb @ eps @ pc" "epc @ [unk]" _ 13 5]
    by (simp add: T' len eps epc)
  have r9: "readInt32BE \<lparr>data = T, offset = 18\<rparr> = Inr (int S, \<lparr>data = T, offset = 22\<rparr>)"
    using readWith_at [of T "m @ [version] @ [of_nat hc] @ [of_nat he] @ kbb @ eps @ pc @ epc @ [unk]" sb _ 18 4
        "\<lambda>bs. signed_of 32 (be_nat bs)"]
      be_nat_be_bytes [of S 4] S
    by (simp add: T' len eps epc readInt32BE_def sb_def signed_of_def)
  have r10: "move (int S + int n * (int hc + 16)) \<lparr>data = T, offset = 22\<rparr> =
               Inr \<lparr>data = T, offset = 22 + S + n * (hc + 16)\<rparr>"
    using move_at [of T "m @ [version] @ [of_nat hc] @ [of_nat he] @ kbb @ eps @ pc @ epc @ [unk] @ sb"
        "specBlock @ pageIndex" pages 22 "int S + int n * (int hc + 16)"]
    by (simp add: T' len eps epc S idx tl_def add.assoc)
  from r0 r1 r2 r3 r4 r5 r6 r7 r8 r9 r10 show ?thesis
    unfolding parseEncodingFile_def by simp
qed

lemma parseEncodingFile_one_row:
  assumes blte: "blte raw hash =
      Inr (encodingHeader version (length cKey) (length eKey1) cKeyPageSizeKB eKeyPageSizeKB 1
             eKeyPageCount unk11 (length specBlock) @
           specBlock @ pageIndex @
           ([2] @ be_bytes 5 sz @ cKey @ eKey1 @ eKey2) @
           replicate (cKeyPageSizeKB * 1024 - (6 + length cKey + 2 * length eKey1)) 0 @ rest)"
    and skipped: "length eKeyPageSizeKB = 2" "length eKeyPageCount = 4"
    and keys: "length cKey < 256" "length eKey1 < 256" "length eKey2 = length eKey1"
    and sz: "sz < 2 ^ 40"
    and kb: "0 < cKeyPageSizeKB" "cKeyPageSizeKB < 2 ^ 16"
    and spec: "length specBlock < 2 ^ 31"
    and idx: "length pageIndex = length cKey + 16"
    and empty: "encodingSizes c = []" "encodingKeys c = []"
  shows "parseEncodingFile blte c raw hash =
           Inr (c\<lparr>encodingSizes := [(hex_of cKey, sz)],
                  encodingKeys := [(hex_of cKey, hex_of eKey1)]\<rparr>)"
proof -
  let ?hc = "length cKey" and ?he = "length eKey1" and ?S = "length specBlock"
  define hdr where "hdr = encodingHeader version ?hc ?he cKeyPageSizeKB eKeyPageSizeKB 1
             eKeyPageCount unk11 ?S"
  define m where "m = cKeyPageSizeKB * 1024 - (6 + ?hc + 2 * ?he) - 1"
  define pages where "pages = ([of_nat 2] @ be_bytes 5 sz @ cKey @ eKey1 @ eKey2) @
           0 # (replicate m 0 @ rest)"
  define T where "T = hdr @ specBlock @ pageIndex @ pages"
  define P where "P = 22 + ?S + 1 * (?hc + 16)"
  have pad: "replicate (cKeyPageSizeKB * 1024 - (6 + ?hc + 2 * ?he)) (0 :: byte) = 0 # replicate m 0"
  proof -
    have "cKeyPageSizeKB * 1024 - (6 + ?hc + 2 * ?he) = Suc m"
      using kb keys by (simp add: m_def)
    then show ?thesis by simp
  qed
  have blte': "blte raw hash = Inr T"
    by (simp add: blte T_def hdr_def pages_def pad)
  have hlen: "length hdr = 22"
    by (simp add: hdr_def encodingHeader_def skipped)
  have head: "parseEncodingFile blte c raw hash =
           (case parseEncodingPages 1 0 P (cKeyPageSizeKB * 1024) ?hc ?he c \<lparr>data = T, offset = P\<rparr> of
              Inl e \<Rightarrow> Inl e
            | Inr (c', e11) \<Rightarrow> Inr c')"
    unfolding P_def
    by (rule parseEncodingFile_header [where version = version and eps = eKeyPageSizeKB
          and epc = eKeyPageCount and unk = unk11 and specBlock = specBlock
          and pageIndex = pageIndex and pages = pages])
       (use kb spec in \<open>simp_all add: T_def hdr_def blte' skipped keys idx\<close>)
  let ?b = "\<lparr>data = T, offset = P\<rparr>"
  have d: "data ?b = (hdr @ specBlock @ pageIndex) @
             ([of_nat 2] @ be_bytes 5 sz @ cKey @ eKey1 @ eKey2) @ 0 # (replicate m 0 @ rest)"
    by (simp add: T_def pages_def)
  have o: "offset ?b = length (hdr @ specBlock @ pageIndex)"
    by (simp add: P_def hlen idx)
  have lim: "offset ?b < P + P"
    by (simp add: P_def)
  from parseEncodingPage_one_entry [OF d o _ _ sz _ lim, of c] keys
  obtain b' where page: "parseEncodingPage (P + P) ?hc ?he c ?b =
      Inr (c\<lparr>encodingSizes := AList.update (hex_of cKey) sz (encodingSizes c),
             encodingKeys := AList.update (hex_of cKey) (hex_of eKey1) (encodingKeys c)\<rparr>, b')"
    by auto
  have sk: "seek P ?b = Inr ?b"
    by (simp add: seek_def T_def P_def hlen idx)
  have "parseEncodingPages 1 0 P (cKeyPageSizeKB * 1024) ?hc ?he c ?b =
          Inr (c\<lparr>encodingSizes := [(hex_of cKey, sz)],
                 encodingKeys := [(hex_of cKey, hex_of eKey1)]\<rparr>, b')"
    using sk page empty by simp
  with head show ?thesis by simp
qed

text \<open>
  C6: a well-formed encoding table with a single page (padded with zeros to the page size)
  that holds one entry with key count 2, a 40-bit big-endian size, one content key and two
  encoding keys, parsed into empty tables, gives exactly one row: the content key mapped to
  the first encoding key and to the size; the second encoding key is skipped.
\<close>

theorem parseEncodingFile_single_entry:
  assumes blte: "blte raw hash =
      Inr (encodingHeader version (length cKey) (length eKey1) cKeyPageSizeKB eKeyPageSizeKB 1
             eKeyPageCount unk11 (length specBlock) @
           specBlock @ pageIndex @
           ([2] @ be_bytes 5 sz @ cKey @ eKey1 @ eKey2) @
           replicate (cKeyPageSizeKB * 1024 - (6 + length cKey + 2 * length eKey1)) 0 @ rest)"
    and skipped: "length eKeyPageSizeKB = 2" "length eKeyPageCount = 4"
    and keys: "length cKey < 256" "length eKey1 < 256" "length eKey2 = length eKey1"
    and sz: "sz < 2 ^ 40"
    and kb: "0 < cKeyPageSizeKB" "cKeyPageSizeKB < 2 ^ 16"
    and spec: "length specBlock < 2 ^ 31"
    and idx: "length pageIndex = length cKey + 16"
    and empty: "encodingSizes c = []" "encodingKeys c = []"
  shows "parseEncodingFile blte c raw hash =
           Inr (c\<lparr>encodingSizes := [(hex_of cKey, sz)],
                  encodingKeys := [(hex_of cKey, hex_of eKey1)]\<rparr>)"
  using assms by (rule parseEncodingFile_one_row)

theorem parseEncodingFile_single_entry_witness:
  "parseEncodingFile id_blte demo_empty demo_encoding [] =
     Inr (demo_empty\<lparr>encodingSizes := [(''49299eae4e3a195953764bb4adb3c91f'', 0x8000000005)],
                     encodingKeys := [(''49299eae4e3a195953764bb4adb3c91f'',
                                       ''101112131415161718191a1b1c1d1e1f'')]\<rparr>)"
proof -
  have h1: "id_blte demo_encoding [] =
      Inr (encodingHeader 1 (length demo_key) (length demo_ekey1) 4 [0x00, 0x04] 1
             [0x00, 0x00, 0x00, 0x01] 0 (length [0x7a :: byte, 0x3a]) @
           [0x7a, 0x3a] @ replicate 32 0xff @
           ([2] @ be_bytes 5 0x8000000005 @ demo_key @ demo_ekey1 @ demo_ekey2) @
           replicate (4 * 1024 - (6 + length demo_key + 2 * length demo_ekey1)) 0 @ [])"
    by (simp only: id_blte_def demo_encoding_def)
  have h2: "length [0x00 :: byte, 0x04] = 2" "length [0x00 :: byte, 0x00, 0x00, 0x01] = 4"
    by simp_all
  have h3: "length demo_key < 256" "length demo_ekey1 < 256" "length demo_ekey2 = length demo_ekey1"
    by (simp_all add: demo_key_def demo_ekey1_def demo_ekey2_def)
  have h4: "(0x8000000005 :: nat) < 2 ^ 40" "(0 :: nat) < 4" "(4 :: nat) < 2 ^ 16"
    "length [0x7a :: byte, 0x3a] < 2 ^ 31"
    by simp_all
  have h5: "length (replicate 32 (0xff :: byte)) = length demo_key + 16"
    by (simp add: demo_key_def)
  have h6: "encodingSizes demo_empty = []" "encodingKeys demo_empty = []"
    by (simp_all add: demo_empty_def)
  have hx: "hex_of demo_key = ''49299eae4e3a195953764bb4adb3c91f''"
    "hex_of demo_ekey1 = ''101112131415161718191a1b1c1d1e1f''"
    by (simp_all add: hex_of_def hex_byte_def hex_digit_def demo_key_def demo_ekey1_def)
  from parseEncodingFile_single_entry
         [where blte = id_blte and raw = demo_encoding and hash = "[]", OF h1 h2 h3 h4 h5 h6] hx
  show ?thesis by simp
qed


subsection \<open>Builds without an entry for the region\<close>

lemma getVersionConfig_run:
  "getVersionConfig env product s =
     (versionOutcome env (host s) product,
      s\<lparr>requests := requests s @ [host s @ product @ VERSION_CONFIG env]\<rparr>)"
  by (simp add: getVersionConfig_def getConfig_def httpGet_def prog_defs versionOutcome_def Let_def
      split: sum.splits prod.splits)

lemma allSettled_versions:
  "allSettled (map (getVersionConfig env) ps) s =
     (Inr (map (versionOutcome env (host s)) ps),
      s\<lparr>requests := requests s @ map (\<lambda>p. host s @ p @ VERSION_CONFIG env) ps\<rparr>)"
proof (induction ps arbitrary: s)
  case Nil
  then show ?case by simp
next
  case (Cons p ps)
  have one: "getVersionConfig env p s =
     (versionOutcome env (host s) p, s\<lparr>requests := requests s @ [host s @ p @ VERSION_CONFIG env]\<rparr>)"
    by (rule getVersionConfig_run)
  show ?case
    unfolding list.map allSettled.simps one Cons.IH by simp
qed

lemma pushBuilds_append:
  "pushBuilds r results bs =
     bs @ concat (map (\<lambda>result. case result of Inl e \<Rightarrow> []
                        | Inr config \<Rightarrow> [find (\<lambda>e. map_of e ''Region'' = Some r) config]) results)"
proof (induction results arbitrary: bs)
  case Nil
  then show ?case by simp
next
  case (Cons result results)
  then show ?case by (cases result) simp_all
qed

lemma init_run:
  "init env s =
     (Inr (),
      s\<lparr>host := PATCH_HOST env (region s),
        builds := pushBuilds (region s)
                    (map (versionOutcome env (PATCH_HOST env (region s))) (map fst (PRODUCTS env))) [],
        requests := requests s @
                    map (\<lambda>p. PATCH_HOST env (region s) @ p @ VERSION_CONFIG env) (map fst (PRODUCTS env))\<rparr>)"
  unfolding init_def andThen_def modify_def allSettled_versions by simp

lemma find_region_none:
  assumes "\<forall>e \<in> set config. map_of e ''Region'' \<noteq> Some r"
  shows "find (\<lambda>e. map_of e ''Region'' = Some r) (map (AList.update ''Product'' product) config) = None"
proof -
  have "\<And>e. map_of (AList.update ''Product'' product e) ''Region'' = map_of e ''Region''"
    by (simp add: update_conv')
  with assms show ?thesis
    by (simp add: find_None_iff)
qed

lemma productList_undefined:
  "None \<in> set bs \<Longrightarrow> productList ps bs = Inl TypeError"
proof (induction bs)
  case Nil
  then show ?case by simp
next
  case (Cons b bs)
  then show ?case by (cases b) auto
qed

lemma load_undefined_build:
  assumes "buildIndex < length (builds s) \<longrightarrow> builds s ! buildIndex = None"
  shows "fst (load env buildIndex s) = Inl TypeError"
  using assms by (simp add: load_def loadServerConfig_def prog_defs)

lemma demo_init:
  "init demo_env demo_session =
     (Inr (),
      demo_session\<lparr>host := ''http://eu.patch.example/'',
        builds := [Some [(''Region'', ''eu''), (''BuildConfig'', ''bc01''), (''CDNConfig'', ''cd01''),
                         (''VersionsName'', ''9.0.1''), (''Product'', ''wow'')], None],
        requests := [''http://eu.patch.example/wow/versions'', ''http://eu.patch.example/wowt/versions'']\<rparr>)"
  by (simp add: init_run demo_env_def demo_session_def versionOutcome_def demo_get_def
      demo_VersionConfig_def)

text \<open>
  C10: when the version configuration of a product is fetched but has no entry for the
  region of the client, \<open>init\<close> still pushes an element, the \<open>undefined\<close> that
  \<open>find\<close> returned. The builds list then has an \<open>undefined\<close> element, on which
  \<open>getProductList\<close> throws a \<open>TypeError\<close>, as does \<open>load\<close> at its index.
\<close>

theorem init_pushes_undefined_builds:
  assumes "(product, name) \<in> set (PRODUCTS env)"
    and "generics_get env (PATCH_HOST env (region s) @ product @ VERSION_CONFIG env) = Inr (200, body)"
    and "\<forall>e \<in> set (VersionConfig env body). map_of e ''Region'' \<noteq> Some (region s)"
  shows "fst (init env s) = Inr () \<and>
         (\<exists>i < length (builds (snd (init env s))).
            builds (snd (init env s)) ! i = None \<and>
            getProductList env (snd (init env s)) = Inl TypeError \<and>
            fst (load env i (snd (init env s))) = Inl TypeError)"
proof -
  let ?h = "PATCH_HOST env (region s)"
  let ?s' = "snd (init env s)"
  have out: "versionOutcome env ?h product =
               Inr (map (AList.update ''Product'' product) (VersionConfig env body))"
    by (simp add: versionOutcome_def assms(2))
  have "find (\<lambda>e. map_of e ''Region'' = Some (region s))
          (map (AList.update ''Product'' product) (VersionConfig env body)) = None"
    by (rule find_region_none [OF assms(3)])
  moreover have "product \<in> set (map fst (PRODUCTS env))"
    using assms(1) by force
  ultimately have "None \<in> set (builds ?s')"
    using out by (force simp: init_run pushBuilds_append)
  then obtain i where i: "i < length (builds ?s')" "builds ?s' ! i = None"
    by (metis in_set_conv_nth)
  from \<open>None \<in> set (builds ?s')\<close> have "getProductList env ?s' = Inl TypeError"
    by (simp add: getProductList_def productList_undefined)
  moreover from i have "fst (load env i ?s') = Inl TypeError"
    by (intro load_undefined_build) simp
  moreover have "fst (init env s) = Inr ()"
    by (simp add: init_run)
  ultimately show ?thesis
    using i by blast
qed

theorem init_pushes_undefined_builds_witness:
  "fst (init demo_env demo_session) = Inr () \<and>
   builds (snd (init demo_env demo_session)) = [Some demo_build, None] \<and>
   (\<exists>i < length (builds (snd (init demo_env demo_session))).
      builds (snd (init demo_env demo_session)) ! i = None \<and>
      getProductList demo_env (snd (init demo_env demo_session)) = Inl TypeError \<and>
      fst (load demo_env i (snd (init demo_env demo_session))) = Inl TypeError)"
proof -
  have h1: "(''wowt'', ''PTR: World of Warcraft'') \<in> set (PRODUCTS demo_env)"
    by (simp add: demo_env_def)
  have h2: "generics_get demo_env (PATCH_HOST demo_env (region demo_session) @ ''wowt'' @
              VERSION_CONFIG demo_env) = Inr (200, ''versions of wowt'')"
    by (simp add: demo_env_def demo_session_def demo_get_def)
  have h3: "\<forall>e \<in> set (VersionConfig demo_env ''versions of wowt'').
              map_of e ''Region'' \<noteq> Some (region demo_session)"
    by (simp add: demo_env_def demo_session_def demo_VersionConfig_def)
  have b: "builds (snd (init demo_env demo_session)) = [Some demo_build, None]"
    by (simp add: demo_init demo_build_def)
  from init_pushes_undefined_builds [OF h1 h2 h3] b show ?thesis by simp
qed

subsection \<open>The archive index cache\<close>

lemma getArchiveIndex_hit:
  assumes "cacheFiles s (cachePath env key) = Some bytes"
  shows "getArchiveIndex env key s = (parseArchiveIndex env bytes, s)"
  using assms by (simp add: getArchiveIndex_def readFile_def prog_defs)

lemma getArchiveIndex_miss:
  assumes "cacheFiles s (cachePath env key) = None"
    and "generics_downloadFile env (host s @ ''data/'' @ formatCDNKey key @ ''.index'') = Inr bytes"
    and "writable env (cachePath env key)"
  shows "getArchiveIndex env key s =
           (parseArchiveIndex env bytes,
            s\<lparr>requests := requests s @ [host s @ ''data/'' @ formatCDNKey key @ ''.index''],
              cacheFiles := (cacheFiles s)(cachePath env key \<mapsto> bytes)\<rparr>)"
  using assms
  by (simp add: getArchiveIndex_def readFile_def getDataFile_def writeToFile_def prog_defs Let_def)

text \<open>
  C9: on a cache miss \<open>getArchiveIndex\<close> sends one request, stores the bytes it
  received in the cache file named by the archive key, and parses them; whatever the parse
  gives, a second call on the session it leaves returns the same result and leaves the
  session as it is: no request is sent.
\<close>

theorem getArchiveIndex_cache_idempotent:
  assumes "cacheFiles s (cachePath env key) = None"
    and "generics_downloadFile env (host s @ ''data/'' @ formatCDNKey key @ ''.index'') = Inr bytes"
    and "writable env (cachePath env key)"
  shows "\<exists>s1. getArchiveIndex env key s = (parseArchiveIndex env bytes, s1) \<and>
              cacheFiles s1 (cachePath env key) = Some bytes \<and>
              requests s1 = requests s @ [host s @ ''data/'' @ formatCDNKey key @ ''.index''] \<and>
              getArchiveIndex env key s1 = (parseArchiveIndex env bytes, s1)"
proof -
  let ?s1 = "s\<lparr>requests := requests s @ [host s @ ''data/'' @ formatCDNKey key @ ''.index''],
               cacheFiles := (cacheFiles s)(cachePath env key \<mapsto> bytes)\<rparr>"
  have first: "getArchiveIndex env key s = (parseArchiveIndex env bytes, ?s1)"
    by (rule getArchiveIndex_miss [OF assms])
  have cached: "cacheFiles ?s1 (cachePath env key) = Some bytes"
    by simp
  have second: "getArchiveIndex env key ?s1 = (parseArchiveIndex env bytes, ?s1)"
    by (rule getArchiveIndex_hit [OF cached])
  from first cached second show ?thesis
    by (intro exI [of _ ?s1]) simp
qed

theorem getArchiveIndex_cache_idempotent_witness:
  "getArchiveIndex demo_env ''ar01'' (demo_configured\<lparr>host := ''http://b.example/tpr/wow/''\<rparr>) =
     (Inr [(''ek00'', 0, 3)],
      demo_configured\<lparr>host := ''http://b.example/tpr/wow/'',
        requests := [''http://b.example/tpr/wow/data/ar/01/ar01.index''],
        cacheFiles := (\<lambda>path. None)(''cache/indices/ar01.index'' \<mapsto> [0x61, 0x72, 0x01])\<rparr>) \<and>
   getArchiveIndex demo_env ''ar01''
     (demo_configured\<lparr>host := ''http://b.example/tpr/wow/'',
        requests := [''http://b.example/tpr/wow/data/ar/01/ar01.index''],
        cacheFiles := (\<lambda>path. None)(''cache/indices/ar01.index'' \<mapsto> [0x61, 0x72, 0x01])\<rparr>) =
     (Inr [(''ek00'', 0, 3)],
      demo_configured\<lparr>host := ''http://b.example/tpr/wow/'',
        requests := [''http://b.example/tpr/wow/data/ar/01/ar01.index''],
        cacheFiles := (\<lambda>path. None)(''cache/indices/ar01.index'' \<mapsto> [0x61, 0x72, 0x01])\<rparr>)"
proof -
  let ?s = "demo_configured\<lparr>host := ''http://b.example/tpr/wow/''\<rparr>"
  have h1: "cacheFiles ?s (cachePath demo_env ''ar01'') = None"
    by (simp add: demo_configured_def demo_ready_def demo_session_def)
  have h2: "generics_downloadFile demo_env (host ?s @ ''data/'' @ formatCDNKey ''ar01'' @ ''.index'')
              = Inr [0x61, 0x72, 0x01]"
    by (simp add: demo_env_def demo_downloadFile_def formatCDNKey_def substring_def)
  have h3: "writable demo_env (cachePath demo_env ''ar01'')"
    by (simp add: demo_env_def)
  from getArchiveIndex_cache_idempotent [OF h1 h2 h3]
  obtain s1 where
    a: "getArchiveIndex demo_env ''ar01'' ?s = (parseArchiveIndex demo_env [0x61, 0x72, 0x01], s1)" and
    b: "getArchiveIndex demo_env ''ar01'' s1 = (parseArchiveIndex demo_env [0x61, 0x72, 0x01], s1)"
    by blast
  have s1: "s1 = demo_configured\<lparr>host := ''http://b.example/tpr/wow/'',
        requests := [''http://b.example/tpr/wow/data/ar/01/ar01.index''],
        cacheFiles := (\<lambda>path. None)(''cache/indices/ar01.index'' \<mapsto> [0x61, 0x72, 0x01])\<rparr>"
    using a getArchiveIndex_miss [OF h1 h2 h3]
    by (simp add: demo_configured_def demo_ready_def demo_session_def demo_env_def cachePath_def
        formatCDNKey_def substring_def)
  have p: "parseArchiveIndex demo_env [0x61, 0x72, 0x01] = Inr [(''ek00'', 0, 3)]"
    by (simp add: demo_env_def)
  from a b show ?thesis unfolding s1 p by simp
qed

subsection \<open>The fastest host\<close>

lemma foldl_pingSettled:
  assumes "foldl (pingSettled env hosts) best order = r"
  shows "(r = None \<longleftrightarrow>
            best = None \<and> (\<forall>i \<in> set order. i < length hosts \<longrightarrow> (\<forall>p. generics_ping env (hosts ! i) \<noteq> Inr p))) \<and>
         (\<forall>h p. r = Some (h, p) \<longrightarrow>
            (best = Some (h, p) \<or> (\<exists>i \<in> set order. i < length hosts \<and> h = hosts ! i \<and>
                                       generics_ping env h = Inr p)) \<and>
            (\<forall>h' p'. best = Some (h', p') \<longrightarrow> p \<le> p') \<and>
            (\<forall>i \<in> set order. i < length hosts \<longrightarrow>
               (\<forall>p'. generics_ping env (hosts ! i) = Inr p' \<longrightarrow> p \<le> p')))"
  using assms
proof (induction order arbitrary: best)
  case Nil
  then show ?case by auto
next
  case (Cons i order)
  let ?b = "pingSettled env hosts best i"
  from Cons.prems have r: "foldl (pingSettled env hosts) ?b order = r" by simp
  note IH = Cons.IH [OF r]
  show ?case
  proof (cases "i < length hosts")
    case False
    then have "?b = best" by (simp add: pingSettled_def)
    with IH False show ?thesis by auto
  next
    case True
    show ?thesis
    proof (cases "generics_ping env (hosts ! i)")
      case (Inl e)
      with True have "?b = best" by (simp add: pingSettled_def)
      with IH Inl show ?thesis by auto
    next
      case (Inr q)
      show ?thesis
      proof (cases best)
        case None
        with True Inr have b: "?b = Some (hosts ! i, q)" by (simp add: pingSettled_def)
        from IH show ?thesis
          unfolding b using None True Inr by (auto; fastforce)
      next
        case (Some hp)
        obtain bh bp where hp: "hp = (bh, bp)" by (cases hp)
        show ?thesis
        proof (cases "q < bp")
          case lt: True
          with True Inr Some hp have b: "?b = Some (hosts ! i, q)" by (simp add: pingSettled_def)
          from IH show ?thesis
            unfolding b using Some hp True Inr lt by (auto; fastforce)
        next
          case ge: False
          with True Inr Some hp have b: "?b = best" by (simp add: pingSettled_def)
          from IH show ?thesis
            unfolding b using Some hp True Inr ge by (auto; fastforce)
        qed
      qed
    qed
  qed
qed

lemma resolveCDNHost_run:
  assumes "serverConfig s = Some sc" and "map_of sc ''Hosts'' = Some hs"
    and "hosts = map (\<lambda>e. ''http://'' @ e @ ''/'') (split (CHR '' '') hs)"
  shows "resolveCDNHost env s =
           (case foldl (pingSettled env hosts) None (settleOrder env hosts) of
              None \<Rightarrow> (Inl (Error ''Unable to resolve a CDN host.''),
                        s\<lparr>progressSteps := progressSteps s @ [''Locating fastest CDN server''],
                          requests := requests s @ hosts\<rparr>)
            | Some (bestHost, bestPing) \<Rightarrow>
                (Inr (),
                 s\<lparr>progressSteps := progressSteps s @ [''Locating fastest CDN server''],
                   requests := requests s @ hosts,
                   host := bestHost @ jsstr (map_of sc ''Path'') @ ''/''\<rparr>))"
  using assms
  by (simp add: resolveCDNHost_def prog_defs Let_def split: option.splits prod.splits)

text \<open>
  C7: \<open>resolveCDNHost\<close> pings every host of the space-delimited list; once every
  ping has settled, in whatever order, the host it selects has a latency no larger than
  that of any host that answered; when no host answers it throws
  \<open>Unable to resolve a CDN host.\<close> (the spec's \<open>HostResolutionError\<close>). With
  latencies of 50, 10 and 80 ms the host of 10 ms is selected.
\<close>

theorem resolveCDNHost_fastest:
  assumes sc: "serverConfig s = Some sc" and hs: "map_of sc ''Hosts'' = Some hs"
    and hosts: "hosts = map (\<lambda>e. ''http://'' @ e @ ''/'') (split (CHR '' '') hs)"
    and settled: "set (settleOrder env hosts) = {..<length hosts}"
  shows "requests (snd (resolveCDNHost env s)) = requests s @ hosts \<and>
         ((\<forall>h \<in> set hosts. \<forall>p. generics_ping env h \<noteq> Inr p) \<longrightarrow>
            fst (resolveCDNHost env s) = Inl (Error ''Unable to resolve a CDN host.'')) \<and>
         ((\<exists>h \<in> set hosts. \<exists>p. generics_ping env h = Inr p) \<longrightarrow>
            fst (resolveCDNHost env s) = Inr () \<and>
            (\<exists>h p. h \<in> set hosts \<and> generics_ping env h = Inr p \<and>
                   (\<forall>h' \<in> set hosts. \<forall>p'. generics_ping env h' = Inr p' \<longrightarrow> p \<le> p') \<and>
                   host (snd (resolveCDNHost env s)) = h @ jsstr (map_of sc ''Path'') @ ''/''))"
proof -
  let ?r = "foldl (pingSettled env hosts) None (settleOrder env hosts)"
  note run = resolveCDNHost_run [OF sc hs hosts, of env]
  note fold = foldl_pingSettled [of env hosts None "settleOrder env hosts" ?r, OF refl]
  have idx: "\<And>P. (\<forall>i \<in> set (settleOrder env hosts). i < length hosts \<longrightarrow> P (hosts ! i)) \<longleftrightarrow>
                  (\<forall>h \<in> set hosts. P h)"
    unfolding settled by (auto simp: in_set_conv_nth intro: nth_mem)
  have none: "?r = None \<longleftrightarrow> (\<forall>h \<in> set hosts. \<forall>p. generics_ping env h \<noteq> Inr p)"
    using fold idx [of "\<lambda>h. \<forall>p. generics_ping env h \<noteq> Inr p"] by simp
  have req: "requests (snd (resolveCDNHost env s)) = requests s @ hosts"
    unfolding run by (simp split: option.splits prod.splits)
  have fail: "(\<forall>h \<in> set hosts. \<forall>p. generics_ping env h \<noteq> Inr p) \<longrightarrow>
            fst (resolveCDNHost env s) = Inl (Error ''Unable to resolve a CDN host.'')"
  proof
    assume "\<forall>h \<in> set hosts. \<forall>p. generics_ping env h \<noteq> Inr p"
    with none have "?r = None" by simp
    then show "fst (resolveCDNHost env s) = Inl (Error ''Unable to resolve a CDN host.'')"
      unfolding run by simp
  qed
  have best: "(\<exists>h \<in> set hosts. \<exists>p. generics_ping env h = Inr p) \<longrightarrow>
            fst (resolveCDNHost env s) = Inr () \<and>
            (\<exists>h p. h \<in> set hosts \<and> generics_ping env h = Inr p \<and>
                   (\<forall>h' \<in> set hosts. \<forall>p'. generics_ping env h' = Inr p' \<longrightarrow> p \<le> p') \<and>
                   host (snd (resolveCDNHost env s)) = h @ jsstr (map_of sc ''Path'') @ ''/'')"
  proof
    assume "\<exists>h \<in> set hosts. \<exists>p. generics_ping env h = Inr p"
    with none obtain bh bp where r: "?r = Some (bh, bp)"
      by (cases ?r) auto
    from fold r have
      from_list: "\<exists>i \<in> set (settleOrder env hosts). i < length hosts \<and> bh = hosts ! i \<and>
                    generics_ping env bh = Inr bp" and
      least: "\<forall>i \<in> set (settleOrder env hosts). i < length hosts \<longrightarrow>
                (\<forall>p'. generics_ping env (hosts ! i) = Inr p' \<longrightarrow> bp \<le> p')"
      by auto
    from from_list have mem: "bh \<in> set hosts" and ping: "generics_ping env bh = Inr bp"
      by auto
    from least have min: "\<forall>h' \<in> set hosts. \<forall>p'. generics_ping env h' = Inr p' \<longrightarrow> bp \<le> p'"
      using idx [of "\<lambda>h. \<forall>p'. generics_ping env h = Inr p' \<longrightarrow> bp \<le> p'"] by simp
    have "fst (resolveCDNHost env s) = Inr ()"
      and "host (snd (resolveCDNHost env s)) = bh @ jsstr (map_of sc ''Path'') @ ''/''"
      unfolding run by (simp_all add: r)
    with mem ping min show "fst (resolveCDNHost env s) = Inr () \<and>
            (\<exists>h p. h \<in> set hosts \<and> generics_ping env h = Inr p \<and>
                   (\<forall>h' \<in> set hosts. \<forall>p'. generics_ping env h' = Inr p' \<longrightarrow> p \<le> p') \<and>
                   host (snd (resolveCDNHost env s)) = h @ jsstr (map_of sc ''Path'') @ ''/'')"
      by blast
  qed
  from req fail best show ?thesis by blast
qed

theorem resolveCDNHost_fastest_witness:
  "generics_ping demo_env ''http://a.example/'' = Inr 50 \<and>
   generics_ping demo_env ''http://b.example/'' = Inr 10 \<and>
   generics_ping demo_env ''http://c.example/'' = Inr 80 \<and>
   requests (snd (resolveCDNHost demo_env demo_configured)) =
     requests demo_configured @ [''http://a.example/'', ''http://b.example/'', ''http://c.example/''] \<and>
   fst (resolveCDNHost demo_env demo_configured) = Inr () \<and>
   host (snd (resolveCDNHost demo_env demo_configured)) = ''http://b.example/tpr/wow/''"
proof -
  let ?sc = "[(''Name'', ''eu''), (''Path'', ''tpr/wow''), (''Hosts'', ''a.example b.example c.example'')]"
  let ?hosts = "[''http://a.example/'', ''http://b.example/'', ''http://c.example/'']"
  have h1: "serverConfig demo_configured = Some ?sc"
    by (simp add: demo_configured_def)
  have h2: "map_of ?sc ''Hosts'' = Some ''a.example b.example c.example''"
    by simp
  have h3: "?hosts = map (\<lambda>e. ''http://'' @ e @ ''/'') (split (CHR '' '') ''a.example b.example c.example'')"
    by simp
  have h4: "set (settleOrder demo_env ?hosts) = {..<length ?hosts}"
    by (auto simp: demo_env_def)
  have p: "generics_ping demo_env ''http://a.example/'' = Inr 50"
    "generics_ping demo_env ''http://b.example/'' = Inr 10"
    "generics_ping demo_env ''http://c.example/'' = Inr 80"
    by (simp_all add: demo_env_def demo_ping_def)
  have run: "fst (resolveCDNHost demo_env demo_configured) = Inr ()"
    "host (snd (resolveCDNHost demo_env demo_configured)) = ''http://b.example/tpr/wow/''"
    by (simp_all add: resolveCDNHost_run [OF h1 h2 h3] pingSettled_def demo_env_def demo_ping_def jsstr_def)
  from resolveCDNHost_fastest [OF h1 h2 h3 h4] p run show ?thesis by simp
qed

subsection \<open>The order of the load\<close>

text \<open>
  The parsers write their own tables only.
\<close>

lemma parseEncodingEntry_frame:
  assumes "parseEncodingEntry hc he c b = Inr (Some c', b') \<or>
           parseEncodingEntry hc he c b = Inl (e, c')"
  shows "\<exists>es ek. c' = c\<lparr>encodingSizes := es, encodingKeys := ek\<rparr>"
proof -
  have same: "c = c\<lparr>encodingSizes := encodingSizes c, encodingKeys := encodingKeys c\<rparr>"
    by simp
  have sizes: "c\<lparr>encodingSizes := es\<rparr> = c\<lparr>encodingSizes := es, encodingKeys := encodingKeys c\<rparr>"
    for es by simp
  from assms have
    "c' = c \<or> (\<exists>es. c' = c\<lparr>encodingSizes := es\<rparr>) \<or>
     (\<exists>es ek. c' = c\<lparr>encodingSizes := es, encodingKeys := ek\<rparr>)"
    unfolding parseEncodingEntry_def
    by (auto split: sum.splits prod.splits if_splits)
  then show ?thesis
    using same sizes by metis
qed

lemma parseEncodingPage_frame:
  "parseEncodingPage limit hc he c b = Inr (c', b') \<or>
   parseEncodingPage limit hc he c b = Inl (e, c') \<Longrightarrow>
   \<exists>es ek. c' = c\<lparr>encodingSizes := es, encodingKeys := ek\<rparr>"
proof (induction limit hc he c b rule: parseEncodingPage.induct)
  case (1 limit hc he c b)
  have same: "c = c\<lparr>encodingSizes := encodingSizes c, encodingKeys := encodingKeys c\<rparr>"
    by simp
  show ?case
  proof (cases "offset b < limit")
    case False
    with "1.prems" have "c' = c"
      by (simp add: parseEncodingPage.simps)
    with same show ?thesis by metis
  next
    case True
    show ?thesis
    proof (cases "parseEncodingEntry hc he c b")
      case (Inl failed)
      with "1.prems" True have "parseEncodingEntry hc he c b = Inl (e, c')"
        by (subst (asm) (1 2) parseEncodingPage.simps) simp
      then show ?thesis by (rule parseEncodingEntry_frame [OF disjI2])
    next
      case (Inr x)
      obtain r b1 where x: "x = (r, b1)" by (cases x)
      show ?thesis
      proof (cases r)
        case None
        with "1.prems" True Inr x have "c' = c"
          by (subst (asm) (1 2) parseEncodingPage.simps) simp
        with same show ?thesis by metis
      next
        case (Some c1)
        with Inr x have ent: "parseEncodingEntry hc he c b = Inr (Some c1, b1)" by simp
        from "1.prems" True ent
        have rec: "parseEncodingPage limit hc he c1 b1 = Inr (c', b') \<or>
                   parseEncodingPage limit hc he c1 b1 = Inl (e, c')"
          by (subst (asm) (1 2) parseEncodingPage.simps) simp
        have "\<exists>es ek. c' = c1\<lparr>encodingSizes := es, encodingKeys := ek\<rparr>"
          using "1.IH" [OF True Inr] x Some rec by fastforce
        then obtain es ek where c': "c' = c1\<lparr>encodingSizes := es, encodingKeys := ek\<rparr>"
          by blast
        from parseEncodingEntry_frame [of hc he c b c1 b1] ent obtain es1 ek1 where
          "c1 = c\<lparr>encodingSizes := es1, encodingKeys := ek1\<rparr>" by blast
        with c' have "c' = c\<lparr>encodingSizes := es, encodingKeys := ek\<rparr>" by simp
        then show ?thesis by blast
      qed
    qed
  qed
qed

lemma parseEncodingPages_frame:
  "parseEncodingPages n i pagesStart pageSize hc he c b = Inr (c', b') \<or>
   parseEncodingPages n i pagesStart pageSize hc he c b = Inl (e, c') \<Longrightarrow>
   \<exists>es ek. c' = c\<lparr>encodingSizes := es, encodingKeys := ek\<rparr>"
proof (induction n arbitrary: i c b)
  case 0
  then have "c' = c\<lparr>encodingSizes := encodingSizes c, encodingKeys := encodingKeys c\<rparr>"
    by simp
  then show ?case by blast
next
  case (Suc n)
  let ?lim = "pagesStart + pageSize * i + pagesStart"
  have same: "c = c\<lparr>encodingSizes := encodingSizes c, encodingKeys := encodingKeys c\<rparr>"
    by simp
  show ?case
  proof (cases "seek (pagesStart + pageSize * i) b")
    case (Inl x)
    with Suc.prems have "c' = c" by (simp add: Let_def)
    with same show ?thesis by metis
  next
    case (Inr b1)
    show ?thesis
    proof (cases "parseEncodingPage ?lim hc he c b1")
      case (Inl failed)
      with Suc.prems Inr have "parseEncodingPage ?lim hc he c b1 = Inl (e, c')"
        by (simp add: Let_def)
      then show ?thesis by (rule parseEncodingPage_frame [OF disjI2])
    next
      case pg: (Inr x)
      obtain c1 b2 where x: "x = (c1, b2)" by (cases x)
      from pg x have pg': "parseEncodingPage ?lim hc he c b1 = Inr (c1, b2)" by simp
      from Suc.prems Inr pg' have
        "parseEncodingPages n (Suc i) pagesStart pageSize hc he c1 b2 = Inr (c', b') \<or>
         parseEncodingPages n (Suc i) pagesStart pageSize hc he c1 b2 = Inl (e, c')"
        by (simp add: Let_def)
      from Suc.IH [OF this] obtain es ek where
        c': "c' = c1\<lparr>encodingSizes := es, encodingKeys := ek\<rparr>" by blast
      from parseEncodingPage_frame [of ?lim hc he c b1 c1 b2] pg' obtain es1 ek1 where
        "c1 = c\<lparr>encodingSizes := es1, encodingKeys := ek1\<rparr>" by blast
      with c' have "c' = c\<lparr>encodingSizes := es, encodingKeys := ek\<rparr>" by simp
      then show ?thesis by blast
    qed
  qed
qed

lemma parseEncodingFile_frame:
  assumes "parseEncodingFile blte c raw hash = Inr c' \<or>
           parseEncodingFile blte c raw hash = Inl (e, c')"
  shows "\<exists>es ek. c' = c\<lparr>encodingSizes := es, encodingKeys := ek\<rparr>"
proof -
  have same: "c = c\<lparr>encodingSizes := encodingSizes c, encodingKeys := encodingKeys c\<rparr>"
    by simp
  from assms have
    "c' = c \<or>
     (\<exists>n P ps hc he b b'. parseEncodingPages n 0 P ps hc he c b = Inr (c', b') \<or>
                           parseEncodingPages n 0 P ps hc he c b = Inl (e, c'))"
    unfolding parseEncodingFile_def
    by (auto split: sum.splits prod.splits if_splits)
  then show ?thesis
  proof
    assume "c' = c"
    with same show ?thesis by metis
  next
    assume "\<exists>n P ps hc he b b'. parseEncodingPages n 0 P ps hc he c b = Inr (c', b') \<or>
                                 parseEncodingPages n 0 P ps hc he c b = Inl (e, c')"
    then show ?thesis
      by (auto dest: parseEncodingPages_frame [OF disjI1] parseEncodingPages_frame [OF disjI2])
  qed
qed

lemma parseModernBlock_frame:
  assumes "parseModernBlock cf a c b = Inr (c', b') \<or> parseModernBlock cf a c b = Inl (e, c')"
  shows "\<exists>re rt. c' = c\<lparr>rootEntries := re, rootTypes := rt\<rparr>"
proof -
  have same: "c = c\<lparr>rootEntries := rootEntries c, rootTypes := rootTypes c\<rparr>"
    by simp
  have entries: "c\<lparr>rootEntries := re\<rparr> = c\<lparr>rootEntries := re, rootTypes := rootTypes c\<rparr>"
    for re by simp
  from assms have
    "c' = c \<or> (\<exists>re. c' = c\<lparr>rootEntries := re\<rparr>) \<or>
     (\<exists>re rt. c' = c\<lparr>rootEntries := re, rootTypes := rt\<rparr>)"
    unfolding parseModernBlock_def
    by (auto split: sum.splits prod.splits if_splits)
  then show ?thesis
    using same entries by metis
qed

lemma parseClassicBlock_frame:
  assumes "parseClassicBlock c b = Inr (c', b') \<or> parseClassicBlock c b = Inl (e, c')"
  shows "\<exists>re rt. c' = c\<lparr>rootEntries := re, rootTypes := rt\<rparr>"
proof -
  have same: "c = c\<lparr>rootEntries := rootEntries c, rootTypes := rootTypes c\<rparr>"
    by simp
  have entries: "c\<lparr>rootEntries := re\<rparr> = c\<lparr>rootEntries := re, rootTypes := rootTypes c\<rparr>"
    for re by simp
  from assms have
    "c' = c \<or> (\<exists>re. c' = c\<lparr>rootEntries := re\<rparr>) \<or>
     (\<exists>re rt. c' = c\<lparr>rootEntries := re, rootTypes := rt\<rparr>)"
    unfolding parseClassicBlock_def
    by (auto split: sum.splits prod.splits if_splits)
  then show ?thesis
    using same entries by metis
qed

lemma parseModernBlocks_frame:
  "parseModernBlocks cf a c b = Inr c' \<or> parseModernBlocks cf a c b = Inl (e, c') \<Longrightarrow>
   \<exists>re rt. c' = c\<lparr>rootEntries := re, rootTypes := rt\<rparr>"
proof (induction cf a c b rule: parseModernBlocks.induct)
  case (1 cf a c b)
  show ?case
  proof (cases "remainingBytes b > 0")
    case False
    with "1.prems" have "c' = c\<lparr>rootEntries := rootEntries c, rootTypes := rootTypes c\<rparr>"
      by (simp add: parseModernBlocks.simps)
    then show ?thesis by blast
  next
    case True
    show ?thesis
    proof (cases "parseModernBlock cf a c b")
      case (Inl failed)
      with "1.prems" True have "parseModernBlock cf a c b = Inl (e, c')"
        by (subst (asm) (1 2) parseModernBlocks.simps) simp
      then show ?thesis by (rule parseModernBlock_frame [OF disjI2])
    next
      case (Inr x)
      obtain c1 b1 where x: "x = (c1, b1)" by (cases x)
      from Inr x have blk: "parseModernBlock cf a c b = Inr (c1, b1)" by simp
      from "1.prems" True blk have
        rest: "parseModernBlocks cf a c1 b1 = Inr c' \<or> parseModernBlocks cf a c1 b1 = Inl (e, c')"
        by (subst (asm) (1 2) parseModernBlocks.simps) simp
      from parseModernBlock_frame [of cf a c b c1 b1] blk obtain re1 rt1 where
        c1: "c1 = c\<lparr>rootEntries := re1, rootTypes := rt1\<rparr>" by blast
      have "\<exists>re rt. c' = c1\<lparr>rootEntries := re, rootTypes := rt\<rparr>"
        using "1.IH" [OF True blk] rest by fastforce
      then obtain re rt where "c' = c1\<lparr>rootEntries := re, rootTypes := rt\<rparr>" by blast
      with c1 have "c' = c\<lparr>rootEntries := re, rootTypes := rt\<rparr>" by simp
      then show ?thesis by blast
    qed
  qed
qed

lemma parseClassicBlocks_frame:
  "parseClassicBlocks c b = Inr c' \<or> parseClassicBlocks c b = Inl (e, c') \<Longrightarrow>
   \<exists>re rt. c' = c\<lparr>rootEntries := re, rootTypes := rt\<rparr>"
proof (induction c b rule: parseClassicBlocks.induct)
  case (1 c b)
  show ?case
  proof (cases "remainingBytes b > 0")
    case False
    with "1.prems" have "c' = c\<lparr>rootEntries := rootEntries c, rootTypes := rootTypes c\<rparr>"
      by (simp add: parseClassicBlocks.simps)
    then show ?thesis by blast
  next
    case True
    show ?thesis
    proof (cases "parseClassicBlock c b")
      case (Inl failed)
      with "1.prems" True have "parseClassicBlock c b = Inl (e, c')"
        by (subst (asm) (1 2) parseClassicBlocks.simps) simp
      then show ?thesis by (rule parseClassicBlock_frame [OF disjI2])
    next
      case (Inr x)
      obtain c1 b1 where x: "x = (c1, b1)" by (cases x)
      from Inr x have blk: "parseClassicBlock c b = Inr (c1, b1)" by simp
      from "1.prems" True blk have
        rest: "parseClassicBlocks c1 b1 = Inr c' \<or> parseClassicBlocks c1 b1 = Inl (e, c')"
        by (subst (asm) (1 2) parseClassicBlocks.simps) simp
      from parseClassicBlock_frame [of c b c1 b1] blk obtain re1 rt1 where
        c1: "c1 = c\<lparr>rootEntries := re1, rootTypes := rt1\<rparr>" by blast
      have "\<exists>re rt. c' = c1\<lparr>rootEntries := re, rootTypes := rt\<rparr>"
        using "1.IH" [OF True blk] rest by fastforce
      then obtain re rt where "c' = c1\<lparr>rootEntries := re, rootTypes := rt\<rparr>" by blast
      with c1 have "c' = c\<lparr>rootEntries := re, rootTypes := rt\<rparr>" by simp
      then show ?thesis by blast
    qed
  qed
qed

lemma parseRootFile_frame:
  assumes "parseRootFile blte cf c raw hash = Inr (n, c') \<or>
           parseRootFile blte cf c raw hash = Inl (e, c')"
  shows "\<exists>re rt. c' = c\<lparr>rootEntries := re, rootTypes := rt\<rparr>"
proof -
  have same: "c = c\<lparr>rootEntries := rootEntries c, rootTypes := rootTypes c\<rparr>"
    by simp
  from assms have
    "c' = c \<or>
     (\<exists>a b. parseModernBlocks cf a c b = Inr c' \<or> parseModernBlocks cf a c b = Inl (e, c')) \<or>
     (\<exists>b. parseClassicBlocks c b = Inr c' \<or> parseClassicBlocks c b = Inl (e, c'))"
    unfolding parseRootFile_def
    by (auto split: sum.splits prod.splits if_splits)
  then show ?thesis
    using same
    by (metis parseModernBlocks_frame [OF disjI1] parseModernBlocks_frame [OF disjI2]
        parseClassicBlocks_frame [OF disjI1] parseClassicBlocks_frame [OF disjI2])
qed




lemma emits_step: "emits [l] (step l)"
  unfolding emits_def by (auto simp: step_def modify_def intro: exI [of _ 1])





lemma steps_httpGet [simp]: "progressSteps (snd (httpGet env url s)) = progressSteps s"
  by (simp add: httpGet_def prog_defs)

lemma steps_getConfig [simp]: "progressSteps (snd (getConfig env product file s)) = progressSteps s"
  by (simp add: getConfig_def httpGet_def prog_defs Let_def split: sum.splits prod.splits)

lemma steps_getCDNConfig [simp]: "progressSteps (snd (getCDNConfig env key s)) = progressSteps s"
  by (simp add: getCDNConfig_def httpGet_def prog_defs Let_def split: sum.splits prod.splits option.splits)

lemma steps_getDataFile [simp]: "progressSteps (snd (getDataFile env file s)) = progressSteps s"
  by (simp add: getDataFile_def prog_defs Let_def)

lemma steps_getArchiveIndex [simp]: "progressSteps (snd (getArchiveIndex env key s)) = progressSteps s"
  by (simp add: getArchiveIndex_def getDataFile_def readFile_def writeToFile_def prog_defs Let_def
      split: sum.splits prod.splits option.splits)

lemma steps_setArchive [simp]: "progressSteps (snd (setArchive key entries s)) = progressSteps s"
  by (simp add: setArchive_def prog_defs split: option.splits)





lemma steps_parseInto:
  assumes "\<And>s s' e. parser s = Inr s' \<or> parser s = Inl (e, s') \<Longrightarrow> progressSteps s' = progressSteps s"
  shows "progressSteps (snd (parseInto parser s)) = progressSteps s"
proof (cases "parser s")
  case (Inl x)
  obtain e s' where "x = (e, s')" by (cases x)
  with Inl assms [of s s' e] show ?thesis by (simp add: parseInto_def)
next
  case (Inr s')
  with assms [of s s'] show ?thesis by (simp add: parseInto_def)
qed

lemma steps_parseEncoding [simp]:
  "progressSteps (snd (parseInto (\<lambda>s. parseEncodingFile blte s raw hash) s)) = progressSteps s"
  by (rule steps_parseInto)
     (auto dest: parseEncodingFile_frame [OF disjI1] parseEncodingFile_frame [OF disjI2])

lemma parseRootFile_either:
  assumes "map_sum id snd (parseRootFile blte cf s raw hash) = Inr s' \<or>
           map_sum id snd (parseRootFile blte cf s raw hash) = Inl (e, s')"
  shows "\<exists>n. parseRootFile blte cf s raw hash = Inr (n, s') \<or>
              parseRootFile blte cf s raw hash = Inl (e, s')"
  using assms by (cases "parseRootFile blte cf s raw hash") auto

lemma steps_parseRoot [simp]:
  "progressSteps (snd (parseInto (\<lambda>s. map_sum id snd (parseRootFile blte cf s raw hash)) s)) = progressSteps s"
proof (rule steps_parseInto)
  fix s s' :: session and e
  assume "map_sum id snd (parseRootFile blte cf s raw hash) = Inr s' \<or>
          map_sum id snd (parseRootFile blte cf s raw hash) = Inl (e, s')"
  from parseRootFile_either [OF this] obtain n where
    "parseRootFile blte cf s raw hash = Inr (n, s') \<or> parseRootFile blte cf s raw hash = Inl (e, s')"
    by blast
  from parseRootFile_frame [OF this] show "progressSteps s' = progressSteps s" by auto
qed


















































end
